theory Spec2Isabelle
  imports Main "HOL-Library.Word" "HOL-Library.List_Lexorder"
begin

unbundle bit_operations_syntax

section \<open>Basic types\<close>

text \<open>
  \<^verbatim>\<open>util.Fixed8\<close> is a signed 64-bit integer, \<^verbatim>\<open>util.Uint256\<close> and \<^verbatim>\<open>util.Uint160\<close> are
  fixed-width byte arrays. Byte arrays are lists of bytes here; their order is the
  lexicographic order on bytes (\<^verbatim>\<open>bytes.Compare\<close>), which is the order that
  \<open>HOL-Library.List_Lexorder\<close> gives to lists.
\<close>

type_synonym byte = "8 word"
type_synonym Fixed8 = "64 word"
type_synonym Uint256 = "byte list"
type_synonym Uint160 = "byte list"

text \<open>
  Modelled from the spec: \<^verbatim>\<open>Fixed8.CompareTo\<close> belongs to package \<^verbatim>\<open>util\<close>, which is not
  part of the sources. An amount is a signed 64-bit integer, and the result is the difference
  of the two amounts (the doc comment of \<^verbatim>\<open>item.CompareTo\<close> calls what it returns a
  difference), converted to \<^verbatim>\<open>int\<close>: \<^verbatim>\<open>int(f - g)\<close>. The subtraction is that of the
  64-bit type, so it wraps around, and the result is a value of a 64-bit \<^verbatim>\<open>int\<close>.
\<close>

definition Fixed8_CompareTo :: "Fixed8 \<Rightarrow> Fixed8 \<Rightarrow> int" where
  "Fixed8_CompareTo f g = sint (f - g)"

text \<open>
  Modelled from the spec: \<^verbatim>\<open>Uint256.CompareTo\<close> belongs to package \<^verbatim>\<open>util\<close> too. It is the
  three-way comparison of the two identifiers in their total order by byte value.
\<close>

definition Uint256_CompareTo :: "Uint256 \<Rightarrow> Uint256 \<Rightarrow> int" where
  "Uint256_CompareTo u other = (if u < other then - 1 else if u = other then 0 else 1)"

section \<open>Memory pool: data\<close>

text \<open>
  Modelled from the spec: \<^verbatim>\<open>transaction.Input\<close> is declared outside the sources. An input
  is a reference to a previous output: the hash of a transaction and an output index.
\<close>

record Input =
  PrevHash :: Uint256
  PrevIndex :: "16 word"

text \<open>
  Modelled from the spec: \<^verbatim>\<open>transaction.Transaction\<close> is declared outside the sources. The
  record carries the fields and the results of the methods that the pool reads; \<^verbatim>\<open>Hash()\<close>
  and \<^verbatim>\<open>FeePerByte()\<close> are values fixed at the construction of the (immutable) transaction.
\<close>

record Transaction =
  Hash :: Uint256
  Sender :: Uint160
  SystemFee :: Fixed8
  NetworkFee :: Fixed8
  FeePerByte :: Fixed8
  Inputs :: "Input list"

record item =
  txn :: Transaction
  timeStamp :: nat
  isLowPrio :: bool

subsection \<open>\<^verbatim>\<open>item.CompareTo\<close>\<close>

fun CompareTo :: "item \<Rightarrow> item option \<Rightarrow> int" where
  "CompareTo p None = 1"
| "CompareTo p (Some otherP) =
     (if \<not> isLowPrio p \<and> isLowPrio otherP then 1
      else if isLowPrio p \<and> \<not> isLowPrio otherP then - 1
      else if Fixed8_CompareTo (FeePerByte (txn p)) (FeePerByte (txn otherP)) \<noteq> 0
        then Fixed8_CompareTo (FeePerByte (txn p)) (FeePerByte (txn otherP))
      else if Fixed8_CompareTo (NetworkFee (txn p)) (NetworkFee (txn otherP)) \<noteq> 0
        then Fixed8_CompareTo (NetworkFee (txn p)) (NetworkFee (txn otherP))
      else Uint256_CompareTo (Hash (txn otherP)) (Hash (txn p)))"

text \<open>Test items: transactions that differ in fee and hash only.\<close>

definition mkTx :: "Uint256 \<Rightarrow> Uint160 \<Rightarrow> Fixed8 \<Rightarrow> Input list \<Rightarrow> Transaction" where
  "mkTx h s f ins =
     \<lparr>Hash = h, Sender = s, SystemFee = 0, NetworkFee = f, FeePerByte = f, Inputs = ins\<rparr>"


text \<open>
  The difference of two amounts \<open>f\<close> and \<open>g\<close> fits into 64 bits: the subtraction of
  \<^const>\<open>Fixed8_CompareTo\<close> does not wrap around. \<^verbatim>\<open>math.MaxInt64\<close> is the largest amount.
\<close>

definition fits :: "Fixed8 \<Rightarrow> Fixed8 \<Rightarrow> bool" where
  "fits f g \<longleftrightarrow> - (2 ^ 63) \<le> sint f - sint g \<and> sint f - sint g < 2 ^ 63"

definition fees_fit :: "item \<Rightarrow> item \<Rightarrow> bool" where
  "fees_fit A B \<longleftrightarrow>
     fits (FeePerByte (txn A)) (FeePerByte (txn B)) \<and> fits (FeePerByte (txn B)) (FeePerByte (txn A))
     \<and> fits (NetworkFee (txn A)) (NetworkFee (txn B))
     \<and> fits (NetworkFee (txn B)) (NetworkFee (txn A))"


subsection \<open>Inputs and their order\<close>

text \<open>
  Modelled from the spec: \<^verbatim>\<open>Input.Cmp\<close> belongs to package \<^verbatim>\<open>transaction\<close>, which is not
  part of the sources. Each input is uniquely orderable: inputs are compared by the hash of
  the previous transaction, then by the output index.
\<close>

definition Input_Cmp :: "Input \<Rightarrow> Input \<Rightarrow> int" where
  "Input_Cmp a other =
     (if Uint256_CompareTo (PrevHash a) (PrevHash other) = 0
      then int (unat (PrevIndex a)) - int (unat (PrevIndex other))
      else Uint256_CompareTo (PrevHash a) (PrevHash other))"

subsection \<open>Library routines of Go used by the pool\<close>

text \<open>
  \<^verbatim>\<open>sort.Search(n, f)\<close>: the binary search of the Go library, with its loop
  \<^verbatim>\<open>i, j := 0, n; for i < j { h := (i+j)/2; if !f(h) { i = h+1 } else { j = h } }; return i\<close>.
\<close>

function search_loop :: "(nat \<Rightarrow> bool) \<Rightarrow> nat \<Rightarrow> nat \<Rightarrow> nat" where
  "search_loop f i j =
     (if i < j
      then (if \<not> f ((i + j) div 2) then search_loop f ((i + j) div 2 + 1) j
            else search_loop f i ((i + j) div 2))
      else i)"
  by pat_completeness auto
termination
  by (relation "measure (\<lambda>(f, i, j). j - i)") auto

declare search_loop.simps [simp del]

definition sort_Search :: "nat \<Rightarrow> (nat \<Rightarrow> bool) \<Rightarrow> nat" where
  "sort_Search n f = search_loop f 0 n"

text \<open>
  \<^verbatim>\<open>copy(s[d:], s[r:])\<close> inside one slice \<open>s\<close> (the built-in moves
  \<open>min (len s - d) (len s - r)\<close> elements, as \<^verbatim>\<open>memmove\<close> does).
\<close>

definition copy_within :: "'a list \<Rightarrow> nat \<Rightarrow> nat \<Rightarrow> 'a list" where
  "copy_within s d r =
     take d s @ take (min (length s - d) (length s - r)) (drop r s)
       @ drop (d + min (length s - d) (length s - r)) s"

text \<open>
  \<^verbatim>\<open>sort.Slice\<close> with the order \<^verbatim>\<open>Cmp < 0\<close>, as an insertion sort.
\<close>

fun insert_Input :: "Input \<Rightarrow> Input list \<Rightarrow> Input list" where
  "insert_Input x [] = [x]"
| "insert_Input x (y # ys) = (if Input_Cmp y x < 0 then y # insert_Input x ys else x # y # ys)"

definition sort_Slice :: "Input list \<Rightarrow> Input list" where
  "sort_Slice xs = foldr insert_Input xs []"

section \<open>Memory pool: state and operations\<close>

datatype pool_error = ErrConflict | ErrDup | ErrOOM

record utilityBalanceAndFees =
  balance :: Fixed8
  feeSum :: Fixed8

text \<open>
  Modelled from the spec: the \<^verbatim>\<open>Feer\<close> interface (the fee policy) is declared outside the
  sources. The record holds the two methods the pool calls.
\<close>

record Feer =
  GetUtilityTokenBalance :: "Uint160 \<Rightarrow> Fixed8"
  IsLowPriority :: "Fixed8 \<Rightarrow> bool"

text \<open>
  The pool. Items and inputs are shared by pointer in the source and never mutated after
  their creation, so they are values here. The capacity is a natural number
  (\<^verbatim>\<open>NewMemPool\<close> panics on a negative one).
\<close>

record Pool =
  verifiedMap :: "Uint256 \<rightharpoonup> item"
  verifiedTxes :: "item list"
  inputs :: "Input list"
  fees :: "Uint160 \<rightharpoonup> utilityBalanceAndFees"
  capacity :: nat

definition NewMemPool :: "nat \<Rightarrow> Pool" where
  "NewMemPool c =
     \<lparr>verifiedMap = Map.empty, verifiedTxes = [], inputs = [], fees = Map.empty, capacity = c\<rparr>"

definition count :: "Pool \<Rightarrow> nat" where
  "count mp = length (verifiedTxes mp)"

definition containsKey :: "Pool \<Rightarrow> Uint256 \<Rightarrow> bool" where
  "containsKey mp hash = (case verifiedMap mp hash of Some _ \<Rightarrow> True | None \<Rightarrow> False)"

definition ContainsKey :: "Pool \<Rightarrow> Uint256 \<Rightarrow> bool" where
  "ContainsKey mp hash = containsKey mp hash"

definition findIndexForInput :: "Input list \<Rightarrow> Input \<Rightarrow> nat" where
  "findIndexForInput sl input =
     sort_Search (length sl) (\<lambda>n. Input_Cmp input (sl ! n) \<le> 0)"

definition pushInputToSortedSlice :: "Input list \<Rightarrow> Input \<Rightarrow> Input list" where
  "pushInputToSortedSlice sl input =
     (let n = findIndexForInput sl input;
          s1 = sl @ [input]
      in if n \<noteq> length s1 - 1 then (copy_within s1 (n + 1) n)[n := input] else s1)"

definition dropInputFromSortedSlice :: "Input list \<Rightarrow> Input \<Rightarrow> Input list" where
  "dropInputFromSortedSlice sl input =
     (let n = findIndexForInput sl input
      in if n = length sl \<or> input \<noteq> sl ! n then sl
         else take (length sl - 1) (copy_within sl n (n + 1)))"

text \<open>A sender absent from \<^verbatim>\<open>mp.fees\<close> reads as the zero value of the struct.\<close>

definition zeroFees :: utilityBalanceAndFees where
  "zeroFees = \<lparr>balance = 0, feeSum = 0\<rparr>"

definition checkBalanceAndUpdate :: "Transaction \<Rightarrow> Feer \<Rightarrow> Pool \<Rightarrow> bool \<times> Pool" where
  "checkBalanceAndUpdate tx feer mp =
     (case fees mp (Sender tx) of
        Some senderFee \<Rightarrow>
          (\<not> (balance senderFee <s feeSum senderFee + SystemFee tx + NetworkFee tx), mp)
      | None \<Rightarrow>
          (let senderFee = zeroFees\<lparr>balance := GetUtilityTokenBalance feer (Sender tx)\<rparr>;
               mp1 = mp\<lparr>fees := (fees mp)(Sender tx \<mapsto> senderFee)\<rparr>
           in (\<not> (balance senderFee <s feeSum senderFee + SystemFee tx + NetworkFee tx), mp1)))"

definition addSendersFee :: "Transaction \<Rightarrow> Pool \<Rightarrow> Pool" where
  "addSendersFee tx mp =
     (let senderFee = (case fees mp (Sender tx) of Some sf \<Rightarrow> sf | None \<Rightarrow> zeroFees)
      in mp\<lparr>fees := (fees mp)(Sender tx \<mapsto>
            senderFee\<lparr>feeSum := feeSum senderFee + (SystemFee tx + NetworkFee tx)\<rparr>)\<rparr>)"

definition tryAddSendersFee :: "Transaction \<Rightarrow> Feer \<Rightarrow> Pool \<Rightarrow> bool \<times> Pool" where
  "tryAddSendersFee tx feer mp =
     (case checkBalanceAndUpdate tx feer mp of
        (ok, mp1) \<Rightarrow> if \<not> ok then (False, mp1) else (True, addSendersFee tx mp1))"

fun areInputsInPool :: "Input list \<Rightarrow> Input list \<Rightarrow> bool" where
  "areInputsInPool [] pool = False"
| "areInputsInPool (i # rest) pool =
     (if findIndexForInput pool i < length pool \<and> pool ! (findIndexForInput pool i) = i
      then True else areInputsInPool rest pool)"

definition checkTxConflicts :: "Transaction \<Rightarrow> Feer \<Rightarrow> Pool \<Rightarrow> bool \<times> Pool" where
  "checkTxConflicts tx fee mp =
     (if areInputsInPool (Inputs tx) (inputs mp) then (False, mp)
      else (case checkBalanceAndUpdate tx fee mp of
              (ok, mp1) \<Rightarrow> if \<not> ok then (False, mp1) else (True, mp1)))"

text \<open>\<^verbatim>\<open>Verify\<close> returns the boolean; the pool it leaves behind is the second component.\<close>

definition Verify :: "Transaction \<Rightarrow> Feer \<Rightarrow> Pool \<Rightarrow> bool \<times> Pool" where
  "Verify tx feer mp = checkTxConflicts tx feer mp"

text \<open>
  \<^verbatim>\<open>Add\<close>. The time stamp of the new item is the parameter \<open>now\<close>. The result is the
  error (\<open>None\<close> for \<^verbatim>\<open>nil\<close>) and the pool after the call. \<open>place_item\<close> is the end of
  \<^verbatim>\<open>Add\<close>, common to the full and the not yet full pool: the new item, now in the last
  slot of the list, moves to position \<open>n\<close>, its fees are added to those of its sender and its
  inputs pushed into the inputs of the pool.
\<close>

definition place_item :: "item \<Rightarrow> nat \<Rightarrow> Pool \<Rightarrow> Pool" where
  "place_item pItem n mp =
     (let mp1 =
            (if n \<noteq> length (verifiedTxes mp) - 1
             then mp\<lparr>verifiedTxes := (copy_within (verifiedTxes mp) (n + 1) n)[n := pItem]\<rparr>
             else mp);
          mp2 = addSendersFee (txn pItem) mp1
      in mp2\<lparr>inputs := foldl pushInputToSortedSlice (inputs mp2) (Inputs (txn pItem))\<rparr>)"

definition Add :: "Transaction \<Rightarrow> Feer \<Rightarrow> nat \<Rightarrow> Pool \<Rightarrow> pool_error option \<times> Pool" where
  "Add t fee now mp =
     (let pItem = \<lparr>txn = t, timeStamp = now, isLowPrio = IsLowPriority fee (NetworkFee t)\<rparr>
      in case checkTxConflicts t fee mp of
           (ok, mp1) \<Rightarrow>
             if \<not> ok then (Some ErrConflict, mp1)
             else if containsKey mp1 (Hash t) then (Some ErrDup, mp1)
             else
               (let mp2 = mp1\<lparr>verifiedMap := (verifiedMap mp1)(Hash t \<mapsto> pItem)\<rparr>;
                    n = sort_Search (length (verifiedTxes mp2))
                          (\<lambda>n. CompareTo pItem (Some (verifiedTxes mp2 ! n)) > 0)
                in if length (verifiedTxes mp2) = capacity mp2
                   then
                     (if n = length (verifiedTxes mp2) then (Some ErrOOM, mp2)
                      else
                        (let unlucky = verifiedTxes mp2 ! (length (verifiedTxes mp2) - 1)
                         in (None, place_item pItem n
                               (mp2\<lparr>verifiedMap := (verifiedMap mp2)(Hash (txn unlucky) := None),
                                     verifiedTxes := (verifiedTxes mp2)
                                       [length (verifiedTxes mp2) - 1 := pItem]\<rparr>))))
                   else (None, place_item pItem n
                           (mp2\<lparr>verifiedTxes := verifiedTxes mp2 @ [pItem]\<rparr>))))"

text \<open>
  \<^verbatim>\<open>Remove\<close>. \<open>scan_num\<close> is the loop \<^verbatim>\<open>for num = range mp.verifiedTxes\<close>: it yields the
  first index whose hash matches, the last index when none matches, and 0 on an empty
  slice.
\<close>

fun scan_num :: "Uint256 \<Rightarrow> item list \<Rightarrow> nat \<Rightarrow> nat" where
  "scan_num hash [] num = num"
| "scan_num hash (x # xs) num =
     (if hash = Hash (txn x) then num
      else if xs = [] then num
      else scan_num hash xs (num + 1))"

definition Remove :: "Uint256 \<Rightarrow> Pool \<Rightarrow> Pool" where
  "Remove hash mp =
     (case verifiedMap mp hash of
        None \<Rightarrow> mp
      | Some it \<Rightarrow>
          (let mp1 = mp\<lparr>verifiedMap := (verifiedMap mp)(hash := None)\<rparr>;
               num = scan_num hash (verifiedTxes mp1) 0;
               mp2 =
                 (if int num < int (length (verifiedTxes mp1)) - 1
                  then mp1\<lparr>verifiedTxes :=
                         take num (verifiedTxes mp1) @ drop (num + 1) (verifiedTxes mp1)\<rparr>
                  else if int num = int (length (verifiedTxes mp1)) - 1
                  then mp1\<lparr>verifiedTxes := take num (verifiedTxes mp1)\<rparr>
                  else mp1);
               senderFee = (case fees mp2 (Sender (txn it)) of Some sf \<Rightarrow> sf | None \<Rightarrow> zeroFees);
               mp3 = mp2\<lparr>fees := (fees mp2)(Sender (txn it) \<mapsto>
                       senderFee\<lparr>feeSum := feeSum senderFee
                                    - (SystemFee (txn it) + NetworkFee (txn it))\<rparr>)\<rparr>
           in mp3\<lparr>inputs := foldl dropInputFromSortedSlice (inputs mp3) (Inputs (txn it))\<rparr>))"

text \<open>
  \<^verbatim>\<open>RemoveStale\<close>. The loop state is the pool (its map and its fees change), the new
  list and the new inputs.
\<close>

fun stale_loop ::
  "(Transaction \<Rightarrow> bool) \<Rightarrow> Feer \<Rightarrow> item list \<Rightarrow> Pool \<times> item list \<times> Input list
     \<Rightarrow> Pool \<times> item list \<times> Input list" where
  "stale_loop isOK feer [] st = st"
| "stale_loop isOK feer (itm # rest) (mp, newVerifiedTxes, newInputs) =
     (if isOK (txn itm)
      then (case tryAddSendersFee (txn itm) feer mp of
              (ok, mp1) \<Rightarrow>
                if ok
                then stale_loop isOK feer rest
                       (mp1, newVerifiedTxes @ [itm], newInputs @ Inputs (txn itm))
                else stale_loop isOK feer rest
                       (mp1\<lparr>verifiedMap := (verifiedMap mp1)(Hash (txn itm) := None)\<rparr>,
                        newVerifiedTxes, newInputs))
      else stale_loop isOK feer rest
             (mp\<lparr>verifiedMap := (verifiedMap mp)(Hash (txn itm) := None)\<rparr>,
              newVerifiedTxes, newInputs))"

definition RemoveStale :: "(Transaction \<Rightarrow> bool) \<Rightarrow> Feer \<Rightarrow> Pool \<Rightarrow> Pool" where
  "RemoveStale isOK feer mp =
     (case stale_loop isOK feer (verifiedTxes mp) (mp\<lparr>fees := Map.empty\<rparr>, [], []) of
        (mp1, newVerifiedTxes, newInputs) \<Rightarrow>
          mp1\<lparr>verifiedTxes := newVerifiedTxes, inputs := sort_Slice newInputs\<rparr>)"

section \<open>Peer session: state\<close>

type_synonym handShakeStage = "8 word"

definition versionSent :: handShakeStage where
  "versionSent = push_bit 0 1"

definition versionReceived :: handShakeStage where
  "versionReceived = push_bit 1 1"

definition verAckSent :: handShakeStage where
  "verAckSent = push_bit 2 1"

definition verAckReceived :: handShakeStage where
  "verAckReceived = push_bit 3 1"

definition requestQueueSize :: nat where
  "requestQueueSize = 32"

definition p2pMsgQueueSize :: nat where
  "p2pMsgQueueSize = 16"

definition hpRequestQueueSize :: nat where
  "hpRequestQueueSize = 4"

text \<open>
  The errors of the session: the four package-level values, the handshake errors made by
  \<^verbatim>\<open>errors.New\<close> (with their text), a failure of \<^verbatim>\<open>conn.Write\<close> and a failure of
  \<^verbatim>\<open>Message.Bytes\<close>.
\<close>

datatype net_error =
    errGone
  | errStateMismatch
  | errPingPong
  | errUnexpectedPong
  | errHandshake string
  | errConnWrite
  | errSerialize

text \<open>
  A \<^verbatim>\<open>time.Timer\<close> made by \<^verbatim>\<open>time.AfterFunc\<close>. \<^verbatim>\<open>Stop\<close> reports whether the call stopped the
  timer: true while it is pending, false once it has expired or has been stopped.
\<close>

datatype timer = Pending | Expired | Stopped

fun timer_Stop :: "timer \<Rightarrow> bool \<times> timer" where
  "timer_Stop Pending = (True, Stopped)"
| "timer_Stop Expired = (False, Expired)"
| "timer_Stop Stopped = (False, Stopped)"

text \<open>
  Modelled from the spec: \<^verbatim>\<open>payload.Version\<close> is declared outside the sources; the session
  reads its start height.
\<close>

record Version =
  StartHeight :: "32 word"

text \<open>
  Modelled from the spec: \<^verbatim>\<open>payload.Ping\<close> is declared outside the sources; the session
  reads its last block index.
\<close>

record Ping =
  LastBlockIndex :: "32 word"

text \<open>
  Modelled from the spec: \<^verbatim>\<open>Message\<close> is declared outside the sources. A message is
  represented by what its method \<^verbatim>\<open>Bytes()\<close> returns: its bytes, or the error of the
  serialisation.
\<close>

record Message =
  Bytes :: "net_error + byte list"

text \<open>
  The peer. A buffered channel is the list of the messages waiting in it, oldest first;
  \<open>done_closed\<close> says that the channel \<^verbatim>\<open>done\<close> is closed; \<open>finale\<close> says that the
  \<^verbatim>\<open>sync.Once\<close> has run; \<open>unregister\<close> is the \<^verbatim>\<open>peerDrop\<close> error sent to the server, if one
  was sent. \<open>pingSent\<close> is a Go \<^verbatim>\<open>int\<close>.
\<close>

record TCPPeer =
  version :: "Version option"
  lastBlockIndex :: "32 word"
  finale :: bool
  handShake :: handShakeStage
  done_closed :: bool
  sendQ :: "byte list list"
  p2pSendQ :: "byte list list"
  hpSendQ :: "byte list list"
  pingSent :: "64 word"
  pingTimer :: "timer option"
  unregister :: "net_error option option"

definition NewTCPPeer :: TCPPeer where
  "NewTCPPeer =
     \<lparr>version = None, lastBlockIndex = 0, finale = False, handShake = 0, done_closed = False,
      sendQ = [], p2pSendQ = [], hpSendQ = [], pingSent = 0, pingTimer = None,
      unregister = None\<rparr>"

text \<open>The three send queues, as the argument \<^verbatim>\<open>queue\<close> of \<^verbatim>\<open>putPacketIntoQueue\<close>.\<close>

datatype queue = The_sendQ | The_p2pSendQ | The_hpSendQ

fun queue_contents :: "queue \<Rightarrow> TCPPeer \<Rightarrow> byte list list" where
  "queue_contents The_sendQ p = sendQ p"
| "queue_contents The_p2pSendQ p = p2pSendQ p"
| "queue_contents The_hpSendQ p = hpSendQ p"

fun queue_cap :: "queue \<Rightarrow> nat" where
  "queue_cap The_sendQ = requestQueueSize"
| "queue_cap The_p2pSendQ = p2pMsgQueueSize"
| "queue_cap The_hpSendQ = hpRequestQueueSize"

fun queue_send :: "queue \<Rightarrow> byte list \<Rightarrow> TCPPeer \<Rightarrow> TCPPeer" where
  "queue_send The_sendQ msg p = p\<lparr>sendQ := sendQ p @ [msg]\<rparr>"
| "queue_send The_p2pSendQ msg p = p\<lparr>p2pSendQ := p2pSendQ p @ [msg]\<rparr>"
| "queue_send The_hpSendQ msg p = p\<lparr>hpSendQ := hpSendQ p @ [msg]\<rparr>"

text \<open>
  A call that may wait in a \<^verbatim>\<open>select\<close> either returns (an error or \<^verbatim>\<open>nil\<close>, and the peer
  after the call) or is still waiting in the state shown.
\<close>

datatype outcome = Return "net_error option" TCPPeer | Blocks TCPPeer

section \<open>Peer session: operations\<close>

definition Handshaked :: "TCPPeer \<Rightarrow> bool" where
  "Handshaked p \<longleftrightarrow>
     handShake p = (verAckReceived OR verAckSent OR versionReceived OR versionSent)"

text \<open>
  \<^verbatim>\<open>putPacketIntoQueue\<close>. The \<^verbatim>\<open>select\<close> has two cases: the send, ready when the channel has
  room, and the receive from \<^verbatim>\<open>done\<close>, ready when it is closed. When both are ready Go
  takes either; \<open>pick\<close> says whether it takes the send. When none is ready the call waits.
\<close>

definition putPacketIntoQueue :: "bool \<Rightarrow> queue \<Rightarrow> byte list \<Rightarrow> TCPPeer \<Rightarrow> outcome" where
  "putPacketIntoQueue pick q msg p =
     (if \<not> Handshaked p then Return (Some errStateMismatch) p
      else if length (queue_contents q p) < queue_cap q \<and> (\<not> done_closed p \<or> pick)
        then Return None (queue_send q msg p)
      else if done_closed p then Return (Some errGone) p
      else Blocks p)"

definition EnqueuePacket :: "bool \<Rightarrow> byte list \<Rightarrow> TCPPeer \<Rightarrow> outcome" where
  "EnqueuePacket pick msg p = putPacketIntoQueue pick The_sendQ msg p"

definition putMsgIntoQueue :: "bool \<Rightarrow> queue \<Rightarrow> Message \<Rightarrow> TCPPeer \<Rightarrow> outcome" where
  "putMsgIntoQueue pick q msg p =
     (case Bytes msg of
        Inl err \<Rightarrow> Return (Some err) p
      | Inr b \<Rightarrow> putPacketIntoQueue pick q b p)"

definition EnqueueMessage :: "bool \<Rightarrow> Message \<Rightarrow> TCPPeer \<Rightarrow> outcome" where
  "EnqueueMessage pick msg p = putMsgIntoQueue pick The_sendQ msg p"

definition EnqueueP2PPacket :: "bool \<Rightarrow> byte list \<Rightarrow> TCPPeer \<Rightarrow> outcome" where
  "EnqueueP2PPacket pick msg p = putPacketIntoQueue pick The_p2pSendQ msg p"

definition EnqueueP2PMessage :: "bool \<Rightarrow> Message \<Rightarrow> TCPPeer \<Rightarrow> outcome" where
  "EnqueueP2PMessage pick msg p = putMsgIntoQueue pick The_p2pSendQ msg p"

definition EnqueueHPPacket :: "bool \<Rightarrow> byte list \<Rightarrow> TCPPeer \<Rightarrow> outcome" where
  "EnqueueHPPacket pick msg p = putPacketIntoQueue pick The_hpSendQ msg p"

text \<open>
  The handshake. \<^verbatim>\<open>writeMsg\<close> serialises the message and writes it to the connection; its
  result is the parameter \<open>wr\<close> of the two sending operations (\<open>None\<close> for \<^verbatim>\<open>nil\<close>).
\<close>

definition SendVersion :: "net_error option \<Rightarrow> TCPPeer \<Rightarrow> net_error option \<times> TCPPeer" where
  "SendVersion wr p =
     (if handShake p AND versionSent \<noteq> 0
      then (Some (errHandshake ''invalid handshake: already sent Version''), p)
      else (case wr of
              None \<Rightarrow> (None, p\<lparr>handShake := handShake p OR versionSent\<rparr>)
            | Some err \<Rightarrow> (Some err, p)))"

definition HandleVersion :: "Version \<Rightarrow> TCPPeer \<Rightarrow> net_error option \<times> TCPPeer" where
  "HandleVersion v p =
     (if handShake p AND versionReceived \<noteq> 0
      then (Some (errHandshake ''invalid handshake: already received Version''), p)
      else (None, p\<lparr>version := Some v, lastBlockIndex := StartHeight v,
                     handShake := handShake p OR versionReceived\<rparr>))"

definition SendVersionAck :: "net_error option \<Rightarrow> TCPPeer \<Rightarrow> net_error option \<times> TCPPeer" where
  "SendVersionAck wr p =
     (if handShake p AND versionReceived = 0
      then (Some (errHandshake
              ''invalid handshake: tried to send VersionAck, but no version received yet''), p)
      else if handShake p AND versionSent = 0
      then (Some (errHandshake
              ''invalid handshake: tried to send VersionAck, but didn't send Version yet''), p)
      else if handShake p AND verAckSent \<noteq> 0
      then (Some (errHandshake ''invalid handshake: already sent VersionAck''), p)
      else (case wr of
              None \<Rightarrow> (None, p\<lparr>handShake := handShake p OR verAckSent\<rparr>)
            | Some err \<Rightarrow> (Some err, p)))"

definition HandleVersionAck :: "TCPPeer \<Rightarrow> net_error option \<times> TCPPeer" where
  "HandleVersionAck p =
     (if handShake p AND versionSent = 0
      then (Some (errHandshake
              ''invalid handshake: received VersionAck, but no version sent yet''), p)
      else if handShake p AND versionReceived = 0
      then (Some (errHandshake
              ''invalid handshake: received VersionAck, but no version received yet''), p)
      else if handShake p AND verAckReceived \<noteq> 0
      then (Some (errHandshake ''invalid handshake: already received VersionAck''), p)
      else (None, p\<lparr>handShake := handShake p OR verAckReceived\<rparr>))"

text \<open>\<^verbatim>\<open>Disconnect\<close>: the body runs once.\<close>

definition Disconnect :: "net_error option \<Rightarrow> TCPPeer \<Rightarrow> TCPPeer" where
  "Disconnect err p =
     (if finale p then p
      else p\<lparr>finale := True, done_closed := True, unregister := Some err\<rparr>)"

text \<open>
  \<^verbatim>\<open>SendPing\<close> arms the timer with the callback \<^verbatim>\<open>p.Disconnect(errPingPong)\<close>;
  \<open>timer_expires\<close> is the run-time firing a pending timer and running that callback.
\<close>

definition SendPing :: "bool \<Rightarrow> Message \<Rightarrow> TCPPeer \<Rightarrow> outcome" where
  "SendPing pick msg p =
     (if \<not> Handshaked p then Return (Some errStateMismatch) p
      else EnqueueMessage pick msg
             (p\<lparr>pingSent := pingSent p + 1,
                pingTimer := (case pingTimer p of None \<Rightarrow> Some Pending | Some t \<Rightarrow> Some t)\<rparr>))"

definition timer_expires :: "TCPPeer \<Rightarrow> TCPPeer" where
  "timer_expires p =
     (case pingTimer p of
        Some Pending \<Rightarrow> Disconnect (Some errPingPong) (p\<lparr>pingTimer := Some Expired\<rparr>)
      | _ \<Rightarrow> p)"

text \<open>
  \<^verbatim>\<open>HandlePong\<close>. \<open>stop_fails\<close> is the test \<^verbatim>\<open>p.pingTimer != nil && !p.pingTimer.Stop()\<close>;
  the call of \<^verbatim>\<open>Stop\<close> acts on the timer in either case.
\<close>

fun stop_fails :: "timer option \<Rightarrow> bool" where
  "stop_fails None = False"
| "stop_fails (Some t) = (\<not> fst (timer_Stop t))"

definition HandlePong :: "Ping \<Rightarrow> TCPPeer \<Rightarrow> net_error option \<times> TCPPeer" where
  "HandlePong pong p =
     (if stop_fails (pingTimer p)
      then (Some errPingPong, p\<lparr>pingTimer := map_option (snd \<circ> timer_Stop) (pingTimer p)\<rparr>)
      else (let p1 = p\<lparr>pingTimer := None, pingSent := pingSent p - 1\<rparr>
            in if pingSent p1 <s 0 then (Some errUnexpectedPong, p1)
               else (None, p1\<lparr>lastBlockIndex := LastBlockIndex pong\<rparr>)))"

text \<open>The events of a session, and the states a fresh peer can reach through them.\<close>

datatype peer_event =
    Ev_SendVersion "net_error option"
  | Ev_HandleVersion Version
  | Ev_SendVersionAck "net_error option"
  | Ev_HandleVersionAck
  | Ev_SendPing bool Message
  | Ev_HandlePong Ping
  | Ev_timer_expires
  | Ev_Disconnect "net_error option"
  | Ev_putPacketIntoQueue bool queue "byte list"
  | Ev_putMsgIntoQueue bool queue Message

fun outcome_peer :: "outcome \<Rightarrow> TCPPeer" where
  "outcome_peer (Return err p) = p"
| "outcome_peer (Blocks p) = p"

fun peer_step :: "TCPPeer \<Rightarrow> peer_event \<Rightarrow> TCPPeer" where
  "peer_step p (Ev_SendVersion wr) = snd (SendVersion wr p)"
| "peer_step p (Ev_HandleVersion v) = snd (HandleVersion v p)"
| "peer_step p (Ev_SendVersionAck wr) = snd (SendVersionAck wr p)"
| "peer_step p Ev_HandleVersionAck = snd (HandleVersionAck p)"
| "peer_step p (Ev_SendPing pick msg) = outcome_peer (SendPing pick msg p)"
| "peer_step p (Ev_HandlePong pong) = snd (HandlePong pong p)"
| "peer_step p Ev_timer_expires = timer_expires p"
| "peer_step p (Ev_Disconnect err) = Disconnect err p"
| "peer_step p (Ev_putPacketIntoQueue pick q msg) = outcome_peer (putPacketIntoQueue pick q msg p)"
| "peer_step p (Ev_putMsgIntoQueue pick q msg) = outcome_peer (putMsgIntoQueue pick q msg p)"

definition peer_run :: "peer_event list \<Rightarrow> TCPPeer" where
  "peer_run evs = foldl peer_step NewTCPPeer evs"

section \<open>Data access: transactions\<close>

datatype dao_error =
    ErrKeyNotFound
  | ErrAlreadyExists
  | ErrHasConflicts
  | ErrBadTransactionBytes
  | ErrDecode
  | ErrStore

text \<open>
  The store of a \<^verbatim>\<open>Simple\<close> DAO is seen through its method \<^verbatim>\<open>Get\<close>, which yields the value
  of a key or an error: \<^verbatim>\<open>ErrKeyNotFound\<close> for a missing key, as \<^verbatim>\<open>LevelDBStore.Get\<close> does,
  or a failure of the backing store.
\<close>

record Simple =
  Store_Get :: "byte list \<Rightarrow> dao_error + byte list"

text \<open>
  The parts declared outside the sources are parameters: the prefix byte
  \<^verbatim>\<open>storage.DataTransaction\<close>, the version byte \<^verbatim>\<open>transaction.DummyVersion\<close> and the decoder
  \<^verbatim>\<open>Transaction.DecodeBinary\<close> (run on the bytes that follow the block index).
\<close>

record dao_params =
  DataTransaction :: byte
  DummyVersion :: byte
  DecodeBinary :: "byte list \<Rightarrow> dao_error + Transaction"

text \<open>
  Modelled from the spec: \<^verbatim>\<open>storage.AppendPrefix\<close> is not part of the sources. A key is the
  prefix byte followed by the bytes of the hash.
\<close>

definition AppendPrefix :: "byte \<Rightarrow> byte list \<Rightarrow> byte list" where
  "AppendPrefix k b = k # b"

text \<open>
  Modelled from the spec: \<^verbatim>\<open>Uint256.BytesBE\<close> is not part of the sources. The identifiers
  are kept in their big-endian form.
\<close>

definition BytesBE :: "Uint256 \<Rightarrow> byte list" where
  "BytesBE h = h"

text \<open>
  Modelled from the spec: \<^verbatim>\<open>BinReader.ReadU32LE\<close> is not part of the sources. The block
  index is the little-endian value of the first four bytes.
\<close>

definition ReadU32LE :: "byte list \<Rightarrow> 32 word" where
  "ReadU32LE b =
     ucast (b ! 0) OR push_bit 8 (ucast (b ! 1)) OR push_bit 16 (ucast (b ! 2))
       OR push_bit 24 (ucast (b ! 3))"

definition GetTransaction ::
  "dao_params \<Rightarrow> Simple \<Rightarrow> Uint256 \<Rightarrow> dao_error + (Transaction \<times> 32 word)" where
  "GetTransaction c dao hash =
     (case Store_Get dao (AppendPrefix (DataTransaction c) (BytesBE hash)) of
        Inl err \<Rightarrow> Inl err
      | Inr b \<Rightarrow>
          if length b < 5 then Inl ErrBadTransactionBytes
          else if b ! 4 = DummyVersion c then Inl ErrKeyNotFound
          else (case DecodeBinary c (drop 4 b) of
                  Inl err \<Rightarrow> Inl err
                | Inr tx \<Rightarrow> Inr (tx, ReadU32LE b)))"

definition HasTransaction :: "dao_params \<Rightarrow> Simple \<Rightarrow> Uint256 \<Rightarrow> dao_error option" where
  "HasTransaction c dao hash =
     (case Store_Get dao (AppendPrefix (DataTransaction c) (BytesBE hash)) of
        Inl err \<Rightarrow> None
      | Inr bytes \<Rightarrow>
          if length bytes < 5 then None
          else if bytes ! 4 = DummyVersion c then Some ErrHasConflicts
          else Some ErrAlreadyExists)"

section \<open>Memory pool: the coherence of a pool, runs, test data\<close>

text \<open>The inputs sequence is kept in the order of \<^const>\<open>Input_Cmp\<close>.\<close>

definition sorted_inputs :: "Input list \<Rightarrow> bool" where
  "sorted_inputs xs \<longleftrightarrow> sorted_wrt (\<lambda>a b. Input_Cmp a b \<le> 0) xs"

text \<open>
  The coherence of the three views of a pool, in the words of the specification: the list is
  sorted strictly descending by the priority order, it holds exactly the items of the map, and
  the inputs are the sorted sequence of all inputs of the listed transactions.
\<close>

definition pool_coherent :: "Pool \<Rightarrow> bool" where
  "pool_coherent mp \<longleftrightarrow>
     sorted_wrt (\<lambda>a b. 0 < CompareTo a (Some b)) (verifiedTxes mp)
     \<and> set (verifiedTxes mp) = ran (verifiedMap mp)
     \<and> inputs mp = sort_Slice (concat (map (Inputs \<circ> txn) (verifiedTxes mp)))"

text \<open>The mutating operations as events, and the pool they lead to from an empty one.\<close>

datatype pool_event =
    Ev_Add Transaction Feer nat
  | Ev_Remove Uint256
  | Ev_RemoveStale "Transaction \<Rightarrow> bool" Feer

fun pool_step :: "Pool \<Rightarrow> pool_event \<Rightarrow> Pool" where
  "pool_step mp (Ev_Add t fee now) = snd (Add t fee now mp)"
| "pool_step mp (Ev_Remove hash) = Remove hash mp"
| "pool_step mp (Ev_RemoveStale isOK feer) = RemoveStale isOK feer mp"

definition pool_run :: "nat \<Rightarrow> pool_event list \<Rightarrow> Pool" where
  "pool_run c evs = foldl pool_step (NewMemPool c) evs"

text \<open>A fee policy, two inputs and three transactions of one sender.\<close>

definition feer0 :: Feer where
  "feer0 = \<lparr>GetUtilityTokenBalance = (\<lambda>_. 1000), IsLowPriority = (\<lambda>_. False)\<rparr>"


definition in1 :: Input where
  "in1 = \<lparr>PrevHash = [1], PrevIndex = 0\<rparr>"

definition in2 :: Input where
  "in2 = \<lparr>PrevHash = [2], PrevIndex = 0\<rparr>"

definition tx1 :: Transaction where
  "tx1 = mkTx [1] [9] 10 [in1]"

definition tx2 :: Transaction where
  "tx2 = mkTx [2] [9] 5 [in2]"

definition tx3 :: Transaction where
  "tx3 = mkTx [3] [9] 25 []"

section \<open>Peer session: the handshake table, invariants, test data\<close>

text \<open>The preconditions of the four handshake operations, as the table of the specification
  gives them, and the test that all four bits are set.\<close>

definition pre_SendVersion :: "TCPPeer \<Rightarrow> bool" where
  "pre_SendVersion p \<longleftrightarrow> handShake p AND versionSent = 0"

definition pre_HandleVersion :: "TCPPeer \<Rightarrow> bool" where
  "pre_HandleVersion p \<longleftrightarrow> handShake p AND versionReceived = 0"

definition pre_SendVersionAck :: "TCPPeer \<Rightarrow> bool" where
  "pre_SendVersionAck p \<longleftrightarrow>
     handShake p AND versionSent \<noteq> 0 \<and> handShake p AND versionReceived \<noteq> 0
       \<and> handShake p AND verAckSent = 0"

definition pre_HandleVersionAck :: "TCPPeer \<Rightarrow> bool" where
  "pre_HandleVersionAck p \<longleftrightarrow>
     handShake p AND versionSent \<noteq> 0 \<and> handShake p AND versionReceived \<noteq> 0
       \<and> handShake p AND verAckReceived = 0"

definition all_four_bits :: "TCPPeer \<Rightarrow> bool" where
  "all_four_bits p \<longleftrightarrow>
     handShake p AND versionSent \<noteq> 0 \<and> handShake p AND versionReceived \<noteq> 0
       \<and> handShake p AND verAckSent \<noteq> 0 \<and> handShake p AND verAckReceived \<noteq> 0"

text \<open>No bit above the four handshake bits is set.\<close>

definition hs_low :: "handShakeStage \<Rightarrow> bool" where
  "hs_low h \<longleftrightarrow> (\<forall>n\<ge>4. \<not> bit h n)"

text \<open>A timer kept by the peer was never stopped, an expired one has closed \<^verbatim>\<open>done\<close>.\<close>

definition timer_inv :: "TCPPeer \<Rightarrow> bool" where
  "timer_inv p \<longleftrightarrow>
     pingTimer p \<noteq> Some Stopped
     \<and> (pingTimer p = Some Expired \<longrightarrow> done_closed p)
     \<and> (finale p \<longrightarrow> done_closed p)"

text \<open>A complete handshake; the same followed by a ping; the same with the ping timing out.\<close>

definition hs_events :: "peer_event list" where
  "hs_events = [Ev_SendVersion None, Ev_HandleVersion \<lparr>StartHeight = 5\<rparr>,
                Ev_SendVersionAck None, Ev_HandleVersionAck]"

definition ping_sent_events :: "peer_event list" where
  "ping_sent_events = [Ev_SendVersion None, Ev_HandleVersion \<lparr>StartHeight = 5\<rparr>,
                       Ev_SendVersionAck None, Ev_HandleVersionAck,
                       Ev_SendPing True \<lparr>Bytes = Inr [1]\<rparr>]"

definition ping_events :: "peer_event list" where
  "ping_events = [Ev_SendVersion None, Ev_HandleVersion \<lparr>StartHeight = 5\<rparr>,
                  Ev_SendVersionAck None, Ev_HandleVersionAck,
                  Ev_SendPing True \<lparr>Bytes = Inr [1]\<rparr>, Ev_timer_expires]"

section \<open>Data access: keys and test data\<close>

definition tx_key :: "dao_params \<Rightarrow> Uint256 \<Rightarrow> byte list" where
  "tx_key c hash = AppendPrefix (DataTransaction c) (BytesBE hash)"

text \<open>A store with a placeholder under hash 1 and a stored transaction under hash 3.\<close>

definition test_params :: dao_params where
  "test_params = \<lparr>DataTransaction = 2, DummyVersion = 255, DecodeBinary = (\<lambda>b. Inl ErrDecode)\<rparr>"

definition test_dao :: Simple where
  "test_dao = \<lparr>Store_Get = (\<lambda>k. if k = [2, 1] then Inr [7, 0, 0, 0, 255]
                              else if k = [2, 3] then Inr [7, 0, 0, 0, 0, 9]
                              else Inl ErrKeyNotFound)\<rparr>"

section \<open>Merkle-Patricia trie: nodes, proofs and their verification\<close>

text \<open>
  Modelled from the spec: the node types are declared outside the sources. A node is a leaf
  (value bytes), a branch (child slots indexed by nibble plus a value slot, 17 in all), an
  extension (a nibble path and one child) or a hash node (an unresolved reference by hash;
  \<open>None\<close> for the empty node).
\<close>

datatype Node =
    LeafNode "byte list"
  | BranchNode "Node list"
  | ExtensionNode "byte list" Node
  | HashNode "Uint256 option"

text \<open>
  The errors: \<^verbatim>\<open>ErrNotFound\<close>, a key missing from the store, bytes that do not decode, and
  the panic of an index outside the children of a branch.
\<close>

datatype mpt_error = ErrNotFound | ErrStoreKeyNotFound | ErrNodeDecode | ErrIndexPanic

text \<open>
  The parts declared outside the sources are parameters: the canonical serialisation of a
  node (\<^verbatim>\<open>Node.Bytes\<close>), the decoder that \<^verbatim>\<open>getFromStore\<close> runs on stored bytes, the hash
  function \<^verbatim>\<open>hash.DoubleSha256\<close> and the prefix byte of the storage keys.
\<close>

record mpt_codec =
  NodeBytes :: "Node \<Rightarrow> byte list"
  DecodeNode :: "byte list \<Rightarrow> Node option"
  DoubleSha256 :: "byte list \<Rightarrow> Uint256"
  DataMPT :: byte

text \<open>
  Modelled from the spec: the store of a trie and the \<^verbatim>\<open>Trie\<close> itself are declared outside
  the sources. The store maps keys to bytes; the trie is its root node and its store.
\<close>

type_synonym mpt_store = "byte list \<rightharpoonup> byte list"

record Trie =
  root :: Node
  Store :: mpt_store

text \<open>
  Modelled from the spec: \<^verbatim>\<open>toNibbles\<close> is not part of the sources. It is the nibble
  expansion of a key, the high nibble of each byte first.
\<close>

definition toNibbles :: "byte list \<Rightarrow> byte list" where
  "toNibbles key = concat (map (\<lambda>b. [drop_bit 4 b, b AND 15]) key)"

text \<open>
  Modelled from the spec: \<^verbatim>\<open>lastChild\<close> is not part of the sources. It is the index of the
  value slot of a branch, after the 16 slots indexed by nibble.
\<close>

definition lastChild :: byte where
  "lastChild = 16"

text \<open>
  Modelled from the spec: \<^verbatim>\<open>splitPath\<close> is not part of the sources. It takes the first
  nibble off a path, and stands on the value slot of a branch when the path is empty.
\<close>

definition splitPath :: "byte list \<Rightarrow> byte \<times> byte list" where
  "splitPath path = (if path \<noteq> [] then (hd path, tl path) else (lastChild, path))"

text \<open>
  Modelled from the spec: \<^verbatim>\<open>makeStorageKey\<close> is not part of the sources. Nodes live in a
  key-value store keyed by their hash, behind a prefix byte.
\<close>

definition makeStorageKey :: "mpt_codec \<Rightarrow> byte list \<Rightarrow> byte list" where
  "makeStorageKey c mptKey = DataMPT c # mptKey"

text \<open>
  Modelled from the spec: \<^verbatim>\<open>getFromStore\<close> is not part of the sources. It reads the bytes
  under the key of a hash and decodes them into a node.
\<close>

definition getFromStore :: "mpt_codec \<Rightarrow> mpt_store \<Rightarrow> Uint256 \<Rightarrow> mpt_error + Node" where
  "getFromStore c S h =
     (case S (makeStorageKey c h) of
        None \<Rightarrow> Inl ErrStoreKeyNotFound
      | Some data \<Rightarrow>
          (case DecodeNode c data of None \<Rightarrow> Inl ErrNodeDecode | Some n \<Rightarrow> Inr n))"

text \<open>
  \<^verbatim>\<open>getProof\<close>, from the source. It recurses into nodes read from the store, so the model
  counts the calls down in \<open>fuel\<close> and yields \<open>None\<close> when they run out. The proofs collected
  so far are returned in either case, as the source appends to them through a pointer.
\<close>

fun getProof ::
  "mpt_codec \<Rightarrow> mpt_store \<Rightarrow> nat \<Rightarrow> Node \<Rightarrow> byte list \<Rightarrow> byte list list
     \<Rightarrow> (byte list list \<times> (mpt_error + Node)) option" where
  "getProof c S 0 cur path proofs = None"
| "getProof c S (Suc fuel) (LeafNode v) path proofs =
     (if path = [] then Some (proofs @ [NodeBytes c (LeafNode v)], Inr (LeafNode v))
      else Some (proofs, Inl ErrNotFound))"
| "getProof c S (Suc fuel) (BranchNode children) path proofs =
     (if length children \<le> unat (fst (splitPath path))
      then Some (proofs @ [NodeBytes c (BranchNode children)], Inl ErrIndexPanic)
      else (case getProof c S fuel (children ! unat (fst (splitPath path))) (snd (splitPath path))
                   (proofs @ [NodeBytes c (BranchNode children)]) of
              None \<Rightarrow> None
            | Some (ps, Inl err) \<Rightarrow> Some (ps, Inl err)
            | Some (ps, Inr r) \<Rightarrow>
                Some (ps, Inr (BranchNode (children[unat (fst (splitPath path)) := r])))))"
| "getProof c S (Suc fuel) (ExtensionNode key next) path proofs =
     (if take (length key) path = key
      then (case getProof c S fuel next (drop (length key) path)
                   (proofs @ [NodeBytes c (ExtensionNode key next)]) of
              None \<Rightarrow> None
            | Some (ps, Inl err) \<Rightarrow> Some (ps, Inl err)
            | Some (ps, Inr r) \<Rightarrow> Some (ps, Inr (ExtensionNode key r)))
      else Some (proofs, Inl ErrNotFound))"
| "getProof c S (Suc fuel) (HashNode None) path proofs = Some (proofs, Inl ErrNotFound)"
| "getProof c S (Suc fuel) (HashNode (Some h)) path proofs =
     (case getFromStore c S h of
        Inl err \<Rightarrow> Some (proofs, Inl err)
      | Inr r \<Rightarrow> getProof c S fuel r path proofs)"

definition GetProof ::
  "mpt_codec \<Rightarrow> nat \<Rightarrow> Trie \<Rightarrow> byte list
     \<Rightarrow> ((byte list list \<times> mpt_error option) \<times> Trie) option" where
  "GetProof c fuel t key =
     (case getProof c (Store t) fuel (root t) (toNibbles key) [] of
        None \<Rightarrow> None
      | Some (proof, Inl err) \<Rightarrow> Some ((proof, Some err), t)
      | Some (proof, Inr r) \<Rightarrow> Some ((proof, None), t\<lparr>root := r\<rparr>))"

text \<open>
  Modelled from the spec: \<^verbatim>\<open>getWithPath\<close> is not part of the sources. It performs the same
  nibble descent as \<^verbatim>\<open>getProof\<close> and returns the value of the leaf it ends at, with the
  nodes it has resolved on its way; any failure to resolve a reference is \<^verbatim>\<open>ErrNotFound\<close>.
\<close>

fun getWithPath ::
  "mpt_codec \<Rightarrow> mpt_store \<Rightarrow> nat \<Rightarrow> Node \<Rightarrow> byte list
     \<Rightarrow> (mpt_error + (Node \<times> byte list)) option" where
  "getWithPath c S 0 cur path = None"
| "getWithPath c S (Suc fuel) (LeafNode v) path =
     (if path = [] then Some (Inr (LeafNode v, v)) else Some (Inl ErrNotFound))"
| "getWithPath c S (Suc fuel) (BranchNode children) path =
     (if length children \<le> unat (fst (splitPath path)) then Some (Inl ErrIndexPanic)
      else (case getWithPath c S fuel (children ! unat (fst (splitPath path)))
                   (snd (splitPath path)) of
              None \<Rightarrow> None
            | Some (Inl err) \<Rightarrow> Some (Inl err)
            | Some (Inr (r, bs)) \<Rightarrow>
                Some (Inr (BranchNode (children[unat (fst (splitPath path)) := r]), bs))))"
| "getWithPath c S (Suc fuel) (ExtensionNode key next) path =
     (if take (length key) path = key
      then (case getWithPath c S fuel next (drop (length key) path) of
              None \<Rightarrow> None
            | Some (Inl err) \<Rightarrow> Some (Inl err)
            | Some (Inr (r, bs)) \<Rightarrow> Some (Inr (ExtensionNode key r, bs)))
      else Some (Inl ErrNotFound))"
| "getWithPath c S (Suc fuel) (HashNode None) path = Some (Inl ErrNotFound)"
| "getWithPath c S (Suc fuel) (HashNode (Some h)) path =
     (case getFromStore c S h of
        Inl err \<Rightarrow> Some (Inl ErrNotFound)
      | Inr r \<Rightarrow> getWithPath c S fuel r path)"

text \<open>
  Modelled from the spec: \<^verbatim>\<open>Get\<close> is not part of the sources. It is the radix descent from
  the root along the nibbles of the key.
\<close>

definition Get :: "mpt_codec \<Rightarrow> nat \<Rightarrow> Trie \<Rightarrow> byte list \<Rightarrow> (mpt_error + byte list) option" where
  "Get c fuel t key =
     (case getWithPath c (Store t) fuel (root t) (toNibbles key) of
        None \<Rightarrow> None
      | Some (Inl err) \<Rightarrow> Some (Inl err)
      | Some (Inr (r, bs)) \<Rightarrow> Some (Inr bs))"

text \<open>
  \<^verbatim>\<open>VerifyProof\<close>, from the source: the proof elements are put into a fresh store under the
  keys of their own hashes, in order, and the descent starts at the hash node of the root
  hash.
\<close>

definition proof_store :: "mpt_codec \<Rightarrow> byte list list \<Rightarrow> mpt_store" where
  "proof_store c proofs =
     foldl (\<lambda>S p. S(makeStorageKey c (DoubleSha256 c p) \<mapsto> p)) Map.empty proofs"

definition VerifyProof ::
  "mpt_codec \<Rightarrow> nat \<Rightarrow> Uint256 \<Rightarrow> byte list \<Rightarrow> byte list list \<Rightarrow> (byte list \<times> bool) option" where
  "VerifyProof c fuel rh key proofs =
     (case getWithPath c (proof_store c proofs) fuel (HashNode (Some rh)) (toNibbles key) of
        None \<Rightarrow> None
      | Some (Inl err) \<Rightarrow> Some ([], False)
      | Some (Inr (r, bs)) \<Rightarrow> Some (bs, True))"

text \<open>
  The reference by which a serialisation names a child, a node as its serialisation shows
  it (its children as references), and the hash of a node (that of the empty node is zero).
\<close>

fun ref :: "mpt_codec \<Rightarrow> Node \<Rightarrow> Node" where
  "ref c (HashNode h) = HashNode h"
| "ref c n = HashNode (Some (DoubleSha256 c (NodeBytes c n)))"

fun shallow :: "mpt_codec \<Rightarrow> Node \<Rightarrow> Node" where
  "shallow c (LeafNode v) = LeafNode v"
| "shallow c (BranchNode children) = BranchNode (map (ref c) children)"
| "shallow c (ExtensionNode key next) = ExtensionNode key (ref c next)"
| "shallow c (HashNode h) = HashNode h"

fun is_HashNode :: "Node \<Rightarrow> bool" where
  "is_HashNode (HashNode h) = True"
| "is_HashNode n = False"

definition Node_Hash :: "mpt_codec \<Rightarrow> Node \<Rightarrow> Uint256" where
  "Node_Hash c n =
     (case n of
        HashNode None \<Rightarrow> replicate 32 0
      | HashNode (Some h) \<Rightarrow> h
      | _ \<Rightarrow> DoubleSha256 c (NodeBytes c n))"

text \<open>
  What the specification says of a node and its serialisation, for one node other than a
  hash node: a branch has its 17 slots, the node decodes from its serialisation with its
  children as references, and the serialisation depends on the children through their
  references only. Nothing is asked of the decoder on other bytes, nor of the serialisation
  of nodes that are in no trie.
\<close>

definition node_ok :: "mpt_codec \<Rightarrow> Node \<Rightarrow> bool" where
  "node_ok c n \<longleftrightarrow>
     (case n of BranchNode children \<Rightarrow> length children = 17 | _ \<Rightarrow> True)
     \<and> DecodeNode c (NodeBytes c n) = Some (shallow c n)
     \<and> NodeBytes c (shallow c n) = NodeBytes c n"

text \<open>
  The nodes of a trie held in memory are such nodes, down to the references into the store;
  and nodes live in the store keyed by their hash: what decodes from the bytes under the key
  of a hash is such a node, and that hash is the hash of its serialisation.
\<close>

fun trie_ok :: "mpt_codec \<Rightarrow> Node \<Rightarrow> bool" where
  "trie_ok c (LeafNode v) = node_ok c (LeafNode v)"
| "trie_ok c (BranchNode children) =
     (node_ok c (BranchNode children) \<and> (\<forall>n \<in> set children. trie_ok c n))"
| "trie_ok c (ExtensionNode key nxt) = (node_ok c (ExtensionNode key nxt) \<and> trie_ok c nxt)"
| "trie_ok c (HashNode h) = True"

definition store_ok :: "mpt_codec \<Rightarrow> mpt_store \<Rightarrow> bool" where
  "store_ok c S \<longleftrightarrow>
     (\<forall>h data r. S (makeStorageKey c h) = Some data \<and> DecodeNode c data = Some r \<longrightarrow>
        \<not> is_HashNode r \<and> trie_ok c r \<and> DoubleSha256 c (NodeBytes c r) = h)"

text \<open>
  The descent of a verifier, in the words of the specification: every reference the descent
  meets resolves to a supplied proof element with that hash, and the descent ends at a leaf
  with the path used up.
\<close>

inductive proof_descent ::
  "mpt_codec \<Rightarrow> byte list list \<Rightarrow> Node \<Rightarrow> byte list \<Rightarrow> byte list \<Rightarrow> bool"
  for c :: mpt_codec and proofs :: "byte list list" where
  at_leaf: "proof_descent c proofs (LeafNode v) [] v"
| through_branch:
    "unat (fst (splitPath path)) < length children \<Longrightarrow>
     proof_descent c proofs (children ! unat (fst (splitPath path))) (snd (splitPath path)) v \<Longrightarrow>
     proof_descent c proofs (BranchNode children) path v"
| through_extension:
    "proof_descent c proofs nxt rest v \<Longrightarrow>
     proof_descent c proofs (ExtensionNode key nxt) (key @ rest) v"
| through_reference:
    "data \<in> set proofs \<Longrightarrow> DoubleSha256 c data = h \<Longrightarrow> DecodeNode c data = Some n \<Longrightarrow>
     proof_descent c proofs n path v \<Longrightarrow>
     proof_descent c proofs (HashNode (Some h)) path v"

text \<open>
  A serialisation for the test data: byte lists and references are written with marker
  bytes, a leaf, an extension and a branch with a tag byte. The decoder yields branches of
  17 slots only.
\<close>

fun encbl :: "byte list \<Rightarrow> byte list" where
  "encbl [] = [0]"
| "encbl (x # xs) = 1 # x # encbl xs"

fun decbl :: "byte list \<Rightarrow> (byte list \<times> byte list) option" where
  "decbl [] = None"
| "decbl [t] = (if t = 0 then Some ([], []) else None)"
| "decbl (t # x # r) =
     (if t = 0 then Some ([], x # r)
      else if t = 1 then map_option (\<lambda>(xs, rest). (x # xs, rest)) (decbl r)
      else None)"

fun encref :: "Uint256 option \<Rightarrow> byte list" where
  "encref None = [0]"
| "encref (Some h) = 1 # encbl h"

fun decref :: "byte list \<Rightarrow> (Uint256 option \<times> byte list) option" where
  "decref [] = None"
| "decref (t # r) =
     (if t = 0 then Some (None, r)
      else if t = 1 then map_option (\<lambda>(h, rest). (Some h, rest)) (decbl r)
      else None)"

fun encrefs :: "Uint256 option list \<Rightarrow> byte list" where
  "encrefs [] = [0]"
| "encrefs (h # hs) = 1 # encref h @ encrefs hs"

function decrefs :: "byte list \<Rightarrow> (Uint256 option list \<times> byte list) option" where
  "decrefs b =
     (case b of
        [] \<Rightarrow> None
      | t # r \<Rightarrow>
          if t = 0 then Some ([], r)
          else if t = 1
          then (case decref r of
                  None \<Rightarrow> None
                | Some (h, rest) \<Rightarrow>
                    if length rest < length b
                    then map_option (\<lambda>(hs, rest'). (h # hs, rest')) (decrefs rest)
                    else None)
          else None)"
  by pat_completeness auto
termination
  by (relation "measure length") auto

declare decrefs.simps [simp del]

fun enc_node :: "(byte list \<Rightarrow> Uint256) \<Rightarrow> Node \<Rightarrow> byte list" where
  "enc_node H (LeafNode v) = 2 # encbl v"
| "enc_node H (ExtensionNode key nxt) =
     1 # encbl key
       @ encref (case nxt of HashNode h \<Rightarrow> h | _ \<Rightarrow> Some (H (enc_node H nxt)))"
| "enc_node H (BranchNode children) =
     0 # encrefs (map (\<lambda>n. case n of HashNode h \<Rightarrow> h | _ \<Rightarrow> Some (H (enc_node H n))) children)"
| "enc_node H (HashNode h) = 3 # encref h"

definition dec_node :: "byte list \<Rightarrow> Node option" where
  "dec_node b =
     (case b of
        [] \<Rightarrow> None
      | t # r \<Rightarrow>
          if t = 2 then (case decbl r of Some (v, []) \<Rightarrow> Some (LeafNode v) | _ \<Rightarrow> None)
          else if t = 1
          then (case decbl r of
                  None \<Rightarrow> None
                | Some (key, r') \<Rightarrow>
                    (case decref r' of
                       Some (h, []) \<Rightarrow> Some (ExtensionNode key (HashNode h))
                     | _ \<Rightarrow> None))
          else if t = 0
          then (case decrefs r of
                  Some (hs, []) \<Rightarrow>
                    if length hs = 17 then Some (BranchNode (map HashNode hs)) else None
                | _ \<Rightarrow> None)
          else None)"

definition toy_codec :: "(byte list \<Rightarrow> Uint256) \<Rightarrow> mpt_codec" where
  "toy_codec H = \<lparr>NodeBytes = enc_node H, DecodeNode = dec_node, DoubleSha256 = H, DataMPT = 3\<rparr>"

text \<open>
  A trie for the key \<open>0xabcd\<close> with the value \<open>hi\<close>: its nodes, a store that holds them
  all, the trie with its root extension and its branch in memory and the rest behind a
  reference into the store, and a hash function (the length of the bytes) that does not
  collide on the nodes.
\<close>

definition H0 :: "byte list \<Rightarrow> Uint256" where
  "H0 b = [of_nat (length b)]"

definition c0 :: mpt_codec where
  "c0 = toy_codec H0"

definition leaf0 :: Node where
  "leaf0 = LeafNode [104, 105]"

definition ext0 :: Node where
  "ext0 = ExtensionNode [12, 13] leaf0"

definition branch0 :: Node where
  "branch0 = BranchNode (replicate 11 (HashNode None) @ [ext0] @ replicate 5 (HashNode None))"

definition root0 :: Node where
  "root0 = ExtensionNode [10] branch0"

definition nodes0 :: "Node list" where
  "nodes0 = [root0, branch0, ext0, leaf0]"

definition store0 :: mpt_store where
  "store0 = map_of (map (\<lambda>n. (makeStorageKey c0 (H0 (NodeBytes c0 n)), NodeBytes c0 n)) nodes0)"

definition root1 :: Node where
  "root1 =
     ExtensionNode [10]
       (BranchNode (replicate 11 (HashNode None) @ [HashNode (Some (H0 (NodeBytes c0 ext0)))]
          @ replicate 5 (HashNode None)))"

definition t0 :: Trie where
  "t0 = \<lparr>root = root1, Store = store0\<rparr>"

definition key0 :: "byte list" where
  "key0 = [171, 205]"

definition proof0 :: "byte list list" where
  "proof0 = map (NodeBytes c0) nodes0"

section \<open>Memory pool: the priority order\<close>

lemma sint_diff: "fits f g \<Longrightarrow> sint (f - g) = sint f - sint g"
  by (simp add: fits_def sint_word_ariths signed_take_bit_int_eq_self)

lemma fits_nonneg: "0 \<le>s f \<Longrightarrow> 0 \<le>s g \<Longrightarrow> fits f g"
  using sint_lt [of f] sint_lt [of g] by (simp add: fits_def word_sle_eq)

lemma Fixed8_CompareTo_pos: "fits f g \<Longrightarrow> 0 < Fixed8_CompareTo f g \<longleftrightarrow> g <s f"
  by (simp add: Fixed8_CompareTo_def sint_diff word_sless_alt)

lemma Fixed8_CompareTo_neg: "fits f g \<Longrightarrow> Fixed8_CompareTo f g < 0 \<longleftrightarrow> f <s g"
  by (simp add: Fixed8_CompareTo_def sint_diff word_sless_alt)

text \<open>A difference of zero means equal amounts, wrapped around or not.\<close>

lemma Fixed8_CompareTo_zero: "Fixed8_CompareTo f g = 0 \<longleftrightarrow> f = g"
proof
  assume "Fixed8_CompareTo f g = 0"
  then have "sint (f - g) = sint (0 :: 64 word)"
    by (simp add: Fixed8_CompareTo_def)
  then have "f - g = 0"
    by (rule signed_word_eqI)
  then show "f = g"
    by simp
next
  assume "f = g"
  then show "Fixed8_CompareTo f g = 0"
    by (simp add: Fixed8_CompareTo_def)
qed

lemma Fixed8_CompareTo_range:
  "- (2 ^ 63) \<le> Fixed8_CompareTo f g \<and> Fixed8_CompareTo f g < 2 ^ 63"
  using sint_ge [of "f - g"] sint_lt [of "f - g"] by (simp add: Fixed8_CompareTo_def)

lemma Uint256_CompareTo_pos: "0 < Uint256_CompareTo u v \<longleftrightarrow> v < u"
  by (auto simp: Uint256_CompareTo_def)

lemma Uint256_CompareTo_neg: "Uint256_CompareTo u v < 0 \<longleftrightarrow> u < v"
  by (auto simp: Uint256_CompareTo_def)

lemma Uint256_CompareTo_zero: "Uint256_CompareTo u v = 0 \<longleftrightarrow> u = v"
  by (auto simp: Uint256_CompareTo_def)

text \<open>The result of \<^const>\<open>CompareTo\<close> is a value of a 64-bit \<^verbatim>\<open>int\<close>.\<close>

lemma CompareTo_range: "- (2 ^ 63) \<le> CompareTo A B \<and> CompareTo A B < 2 ^ 63"
  using Fixed8_CompareTo_range
  by (cases B) (auto simp: Uint256_CompareTo_def)

text \<open>
  Where the differences of the fees fit into 64 bits (as they do when no fee is negative),
  a positive result of \<^const>\<open>CompareTo\<close> is the lexicographic comparison of (class, fee per
  byte, network fee, hash), and outranking is asymmetric and transitive.
\<close>

lemma fees_fit_nonneg:
  assumes "0 \<le>s FeePerByte (txn A)" and "0 \<le>s NetworkFee (txn A)"
    and "0 \<le>s FeePerByte (txn B)" and "0 \<le>s NetworkFee (txn B)"
  shows "fees_fit A B"
  using assms by (simp add: fees_fit_def fits_nonneg)

lemma CompareTo_pos_iff:
  assumes "fees_fit A B"
  shows "0 < CompareTo A (Some B) \<longleftrightarrow>
     (if isLowPrio A \<noteq> isLowPrio B then \<not> isLowPrio A \<and> isLowPrio B
      else if FeePerByte (txn A) \<noteq> FeePerByte (txn B)
        then FeePerByte (txn B) <s FeePerByte (txn A)
      else if NetworkFee (txn A) \<noteq> NetworkFee (txn B)
        then NetworkFee (txn B) <s NetworkFee (txn A)
      else Hash (txn A) < Hash (txn B))"
  using assms
  by (auto simp: fees_fit_def Fixed8_CompareTo_pos Fixed8_CompareTo_zero Uint256_CompareTo_pos)

lemma CompareTo_neg_iff:
  assumes "fees_fit A B"
  shows "CompareTo A (Some B) < 0 \<longleftrightarrow>
     (if isLowPrio A \<noteq> isLowPrio B then isLowPrio A \<and> \<not> isLowPrio B
      else if FeePerByte (txn A) \<noteq> FeePerByte (txn B)
        then FeePerByte (txn A) <s FeePerByte (txn B)
      else if NetworkFee (txn A) \<noteq> NetworkFee (txn B)
        then NetworkFee (txn A) <s NetworkFee (txn B)
      else Hash (txn B) < Hash (txn A))"
  using assms
  by (auto simp: fees_fit_def Fixed8_CompareTo_neg Fixed8_CompareTo_zero Uint256_CompareTo_neg)

lemma CompareTo_zero_iff:
  "CompareTo A (Some B) = 0 \<longleftrightarrow>
     isLowPrio A = isLowPrio B \<and> FeePerByte (txn A) = FeePerByte (txn B) \<and>
     NetworkFee (txn A) = NetworkFee (txn B) \<and> Hash (txn A) = Hash (txn B)"
  by (auto simp: Fixed8_CompareTo_zero Uint256_CompareTo_zero)

lemma fees_fit_sym: "fees_fit A B \<longleftrightarrow> fees_fit B A"
  by (auto simp: fees_fit_def)

lemma CompareTo_flip:
  assumes "fees_fit A B"
  shows "CompareTo B (Some A) < 0 \<longleftrightarrow> 0 < CompareTo A (Some B)"
proof -
  from assms have "fees_fit B A"
    by (simp add: fees_fit_sym)
  show ?thesis
    unfolding CompareTo_neg_iff [OF \<open>fees_fit B A\<close>] CompareTo_pos_iff [OF assms]
    by auto
qed

lemma CompareTo_total:
  assumes "fees_fit A B" and "Hash (txn A) \<noteq> Hash (txn B)"
  shows "(0 < CompareTo A (Some B)) \<noteq> (0 < CompareTo B (Some A))"
proof -
  from assms(1) have "fees_fit B A"
    by (simp add: fees_fit_sym)
  from assms(2) show ?thesis
    unfolding CompareTo_pos_iff [OF \<open>fees_fit B A\<close>] CompareTo_pos_iff [OF assms(1)]
    by (auto dest: signed.less_asym less_asym)
qed

lemma CompareTo_trans:
  assumes "fees_fit A B" and "fees_fit B C" and "fees_fit A C"
    and "0 < CompareTo A (Some B)" and "0 < CompareTo B (Some C)"
  shows "0 < CompareTo A (Some C)"
  using assms(4,5)
  unfolding CompareTo_pos_iff [OF assms(1)] CompareTo_pos_iff [OF assms(2)]
    CompareTo_pos_iff [OF assms(3)]
  by (auto split: if_splits dest: signed.less_trans less_trans)


section \<open>Memory pool: the binary search over the inputs\<close>

lemma Input_Cmp_refl: "Input_Cmp a a = 0"
  by (simp add: Input_Cmp_def Uint256_CompareTo_def)

lemma Input_Cmp_le_iff:
  "Input_Cmp a b \<le> 0 \<longleftrightarrow>
     PrevHash a < PrevHash b
     \<or> PrevHash a = PrevHash b \<and> uint (PrevIndex a) \<le> uint (PrevIndex b)"
  by (auto simp: Input_Cmp_def Uint256_CompareTo_def)

lemma Input_Cmp_trans:
  "Input_Cmp a b \<le> 0 \<Longrightarrow> Input_Cmp b c \<le> 0 \<Longrightarrow> Input_Cmp a c \<le> 0"
  unfolding Input_Cmp_le_iff by auto

lemma Input_Cmp_antisym:
  "Input_Cmp a b \<le> 0 \<Longrightarrow> Input_Cmp b a \<le> 0 \<Longrightarrow> a = (b :: Input)"
  unfolding Input_Cmp_le_iff by (auto intro!: Input.equality unsigned_word_eqI [where ?'a = int])

lemma search_loop_correct:
  "\<forall>a b. a \<le> b \<and> b < n \<and> f a \<longrightarrow> f b \<Longrightarrow> i \<le> j \<Longrightarrow> j \<le> n
     \<Longrightarrow> (\<forall>k<i. \<not> f k) \<Longrightarrow> (j < n \<longrightarrow> f j) \<Longrightarrow>
           i \<le> search_loop f i j \<and> search_loop f i j \<le> j
           \<and> (\<forall>k. k < search_loop f i j \<longrightarrow> \<not> f k)
           \<and> (search_loop f i j < n \<longrightarrow> f (search_loop f i j))"
proof (induction f i j rule: search_loop.induct)
  case (1 f i j)
  note mono = "1.prems"(1)
  note bnd = "1.prems"(2,3)
  note low = "1.prems"(4)
  note high = "1.prems"(5)
  show ?case
  proof (cases "i < j")
    case False
    then have "search_loop f i j = i"
      by (subst search_loop.simps) simp
    with False bnd low high show ?thesis by simp
  next
    case True
    let ?h = "(i + j) div 2"
    from True have h: "i \<le> ?h" "?h < j" by simp_all
    from h bnd have hn: "?h < n" "?h \<le> n" by simp_all
    show ?thesis
    proof (cases "f ?h")
      case fh: True
      have "i \<le> search_loop f i ?h \<and> search_loop f i ?h \<le> ?h
           \<and> (\<forall>k. k < search_loop f i ?h \<longrightarrow> \<not> f k)
           \<and> (search_loop f i ?h < n \<longrightarrow> f (search_loop f i ?h))"
      proof (rule "1.IH"(2))
        show "i < j" by fact
        show "\<not> \<not> f ?h" using fh by simp
        show "\<forall>a b. a \<le> b \<and> b < n \<and> f a \<longrightarrow> f b" by fact
        show "i \<le> ?h" by fact
        show "?h \<le> n" by fact
        show "\<forall>k<i. \<not> f k" by fact
        show "?h < n \<longrightarrow> f ?h" using fh by simp
      qed
      moreover have "search_loop f i j = search_loop f i ?h"
        using True fh by (subst search_loop.simps) simp
      ultimately show ?thesis using h by simp
    next
      case nfh: False
      have below: "\<forall>k<?h + 1. \<not> f k"
      proof (intro allI impI)
        fix k assume "k < ?h + 1"
        then have "k \<le> ?h" by simp
        with hn mono nfh show "\<not> f k" by blast
      qed
      have "?h + 1 \<le> search_loop f (?h + 1) j \<and> search_loop f (?h + 1) j \<le> j
           \<and> (\<forall>k. k < search_loop f (?h + 1) j \<longrightarrow> \<not> f k)
           \<and> (search_loop f (?h + 1) j < n \<longrightarrow> f (search_loop f (?h + 1) j))"
      proof (rule "1.IH"(1))
        show "i < j" by fact
        show "\<not> f ?h" by fact
        show "\<forall>a b. a \<le> b \<and> b < n \<and> f a \<longrightarrow> f b" by fact
        show "?h + 1 \<le> j" using h by simp
        show "j \<le> n" by fact
        show "\<forall>k<?h + 1. \<not> f k" by fact
        show "j < n \<longrightarrow> f j" by fact
      qed
      moreover have "search_loop f i j = search_loop f (?h + 1) j"
        using True nfh by (subst search_loop.simps) simp
      ultimately show ?thesis using h by simp
    qed
  qed
qed

lemma sort_Search_correct:
  assumes "\<And>a b. a \<le> b \<Longrightarrow> b < n \<Longrightarrow> f a \<Longrightarrow> f b"
  shows "sort_Search n f \<le> n \<and> (\<forall>k. k < sort_Search n f \<longrightarrow> \<not> f k)
         \<and> (sort_Search n f < n \<longrightarrow> f (sort_Search n f))"
proof -
  have "\<forall>a b. a \<le> b \<and> b < n \<and> f a \<longrightarrow> f b"
    using assms by blast
  from search_loop_correct [OF this, of 0 n] show ?thesis
    unfolding sort_Search_def by simp
qed

lemma sort_Search_le: "sort_Search n f \<le> n"
proof -
  have "i \<le> j \<Longrightarrow> search_loop f i j \<le> j" for i j
  proof (induction f i j rule: search_loop.induct)
    case (1 f i j)
    show ?case
    proof (cases "i < j")
      case False
      then have "search_loop f i j = i"
        by (subst search_loop.simps) simp
      with False "1.prems" show ?thesis by simp
    next
      case True
      then have h: "i \<le> (i + j) div 2" "(i + j) div 2 < j" by simp_all
      show ?thesis
        using "1.IH"(1) [OF True] "1.IH"(2) [OF True] True h
        by (cases "f ((i + j) div 2)") (simp_all add: search_loop.simps [of f i j])
    qed
  qed
  then show ?thesis by (simp add: sort_Search_def)
qed

lemma findIndexForInput_sorted:
  assumes "sorted_inputs sl"
  shows "findIndexForInput sl x \<le> length sl"
    and "\<forall>k<findIndexForInput sl x. \<not> Input_Cmp x (sl ! k) \<le> 0"
    and "findIndexForInput sl x < length sl \<longrightarrow> Input_Cmp x (sl ! findIndexForInput sl x) \<le> 0"
proof -
  have mono: "Input_Cmp x (sl ! b) \<le> 0"
    if "a \<le> b" "b < length sl" "Input_Cmp x (sl ! a) \<le> 0" for a b
  proof (cases "a = b")
    case True with that show ?thesis by simp
  next
    case False
    with that have "a < b" by simp
    with assms that have "Input_Cmp (sl ! a) (sl ! b) \<le> 0"
      by (simp add: sorted_inputs_def sorted_wrt_iff_nth_less)
    with that show ?thesis by (blast intro: Input_Cmp_trans)
  qed
  note c = sort_Search_correct [of "length sl" "\<lambda>n. Input_Cmp x (sl ! n) \<le> 0", OF mono]
  show "findIndexForInput sl x \<le> length sl"
    "\<forall>k<findIndexForInput sl x. \<not> Input_Cmp x (sl ! k) \<le> 0"
    "findIndexForInput sl x < length sl \<longrightarrow> Input_Cmp x (sl ! findIndexForInput sl x) \<le> 0"
    using c unfolding findIndexForInput_def by simp_all
qed

lemma found_iff_member:
  assumes "sorted_inputs sl"
  shows "findIndexForInput sl x < length sl \<and> sl ! findIndexForInput sl x = x \<longleftrightarrow> x \<in> set sl"
proof
  assume "findIndexForInput sl x < length sl \<and> sl ! findIndexForInput sl x = x"
  then show "x \<in> set sl" by (metis nth_mem)
next
  assume "x \<in> set sl"
  then obtain k where k: "k < length sl" "sl ! k = x" by (auto simp: in_set_conv_nth)
  let ?n = "findIndexForInput sl x"
  note f = findIndexForInput_sorted [OF assms, of x]
  have "Input_Cmp x (sl ! k) \<le> 0" using k by (simp add: Input_Cmp_refl)
  with f(2) have nk: "?n \<le> k" by (meson not_less)
  with k have n: "?n < length sl" by simp
  with f(3) have le1: "Input_Cmp x (sl ! ?n) \<le> 0" by simp
  have le2: "Input_Cmp (sl ! ?n) x \<le> 0"
  proof (cases "?n = k")
    case True with k show ?thesis by (simp add: Input_Cmp_refl)
  next
    case False
    with nk have "?n < k" by simp
    with assms k show ?thesis
      by (auto simp: sorted_inputs_def sorted_wrt_iff_nth_less)
  qed
  from le1 le2 have "sl ! ?n = x" by (blast intro: Input_Cmp_antisym [symmetric])
  with n show "?n < length sl \<and> sl ! ?n = x" by simp
qed

lemma areInputsInPool_iff:
  assumes "sorted_inputs pool"
  shows "areInputsInPool ins pool \<longleftrightarrow> set ins \<inter> set pool \<noteq> {}"
  by (induction ins) (simp_all add: found_iff_member [OF assms])

section \<open>Memory pool: what the checks of \<^verbatim>\<open>Add\<close> change\<close>

text \<open>The equations that evaluate the pool on the test data.\<close>

lemmas pool_eval =
  Add_def place_item_def checkTxConflicts_def checkBalanceAndUpdate_def NewMemPool_def
  containsKey_def
  ContainsKey_def sort_Search_def search_loop.simps Fixed8_CompareTo_def Uint256_CompareTo_def
  addSendersFee_def pushInputToSortedSlice_def findIndexForInput_def copy_within_def
  Input_Cmp_def zeroFees_def mkTx_def tx1_def tx2_def tx3_def in1_def in2_def feer0_def
  Let_def pool_run_def Verify_def

lemma checkBalanceAndUpdate_frame:
  "verifiedMap (snd (checkBalanceAndUpdate tx feer mp)) = verifiedMap mp"
  "verifiedTxes (snd (checkBalanceAndUpdate tx feer mp)) = verifiedTxes mp"
  "inputs (snd (checkBalanceAndUpdate tx feer mp)) = inputs mp"
  "capacity (snd (checkBalanceAndUpdate tx feer mp)) = capacity mp"
  by (simp_all add: checkBalanceAndUpdate_def Let_def split: option.split)

lemma checkTxConflicts_frame:
  "verifiedMap (snd (checkTxConflicts tx feer mp)) = verifiedMap mp"
  "verifiedTxes (snd (checkTxConflicts tx feer mp)) = verifiedTxes mp"
  "inputs (snd (checkTxConflicts tx feer mp)) = inputs mp"
  "capacity (snd (checkTxConflicts tx feer mp)) = capacity mp"
  using checkBalanceAndUpdate_frame [of tx feer mp]
  by (cases "checkBalanceAndUpdate tx feer mp"; simp add: checkTxConflicts_def)+

lemma checkTxConflicts_ok:
  "fst (checkTxConflicts tx feer mp) \<Longrightarrow> \<not> areInputsInPool (Inputs tx) (inputs mp)"
  by (simp add: checkTxConflicts_def split: if_splits)

lemma Add_OOM_state:
  assumes "Add t fee now mp = (Some ErrOOM, mp')"
  shows "fst (checkTxConflicts t fee mp)"
    and "\<not> containsKey mp (Hash t)"
    and "length (verifiedTxes mp) = capacity mp"
    and "mp' = (snd (checkTxConflicts t fee mp))
           \<lparr>verifiedMap := (verifiedMap mp)(Hash t \<mapsto>
              \<lparr>txn = t, timeStamp = now, isLowPrio = IsLowPriority fee (NetworkFee t)\<rparr>)\<rparr>"
proof -
  obtain ok mp1 where c: "checkTxConflicts t fee mp = (ok, mp1)"
    by (cases "checkTxConflicts t fee mp")
  from checkTxConflicts_frame [of t fee mp] c
  have f: "verifiedMap mp1 = verifiedMap mp" "verifiedTxes mp1 = verifiedTxes mp"
    "capacity mp1 = capacity mp"
    by simp_all
  from assms c f show "fst (checkTxConflicts t fee mp)"
    by (simp add: Add_def Let_def split: if_splits)
  from assms c f show "\<not> containsKey mp (Hash t)"
    by (simp add: Add_def Let_def containsKey_def split: if_splits)
  from assms c f show "length (verifiedTxes mp) = capacity mp"
    by (simp add: Add_def Let_def split: if_splits)
  from assms c f show "mp' = (snd (checkTxConflicts t fee mp))
           \<lparr>verifiedMap := (verifiedMap mp)(Hash t \<mapsto>
              \<lparr>txn = t, timeStamp = now, isLowPrio = IsLowPriority fee (NetworkFee t)\<rparr>)\<rparr>"
    by (simp add: Add_def Let_def split: if_splits)
qed

text \<open>
  C9. When \<^verbatim>\<open>Add(t)\<close> returns \<^verbatim>\<open>ErrOOM\<close>, the pool was full and did not contain the hash of
  \<open>t\<close>; after the call \<^verbatim>\<open>ContainsKey\<close> of that hash is true, while the verified list and the
  inputs are what they were: no listed item has the hash of \<open>t\<close> (when every listed item was
  in the map before) and no input of \<open>t\<close> is among the inputs (when they were sorted before).
\<close>

theorem Add_OOM_not_atomic:
  assumes "Add t fee now mp = (Some ErrOOM, mp')"
  shows "ContainsKey mp' (Hash t)
     \<and> \<not> ContainsKey mp (Hash t)
     \<and> length (verifiedTxes mp) = capacity mp
     \<and> verifiedTxes mp' = verifiedTxes mp
     \<and> inputs mp' = inputs mp
     \<and> ((\<forall>it \<in> set (verifiedTxes mp). ContainsKey mp (Hash (txn it)))
          \<longrightarrow> (\<forall>it \<in> set (verifiedTxes mp'). Hash (txn it) \<noteq> Hash t))
     \<and> (sorted_inputs (inputs mp) \<longrightarrow> set (Inputs t) \<inter> set (inputs mp') = {})"
proof -
  note s = Add_OOM_state [OF assms]
  have a: "ContainsKey mp' (Hash t)"
    by (simp add: s(4) ContainsKey_def containsKey_def)
  have b: "\<not> ContainsKey mp (Hash t)"
    using s(2) by (simp add: ContainsKey_def)
  have c: "verifiedTxes mp' = verifiedTxes mp" "inputs mp' = inputs mp"
    by (simp_all add: s(4) checkTxConflicts_frame)
  have d: "\<forall>it \<in> set (verifiedTxes mp'). Hash (txn it) \<noteq> Hash t"
    if "\<forall>it \<in> set (verifiedTxes mp). ContainsKey mp (Hash (txn it))"
    using that b c by auto
  have e: "set (Inputs t) \<inter> set (inputs mp') = {}" if "sorted_inputs (inputs mp)"
    using checkTxConflicts_ok [OF s(1)] areInputsInPool_iff [OF that, of "Inputs t"] c by simp
  from a b s(3) c d e show ?thesis by blast
qed

theorem Add_OOM_not_atomic_witness:
  "Add tx2 feer0 0 (snd (Add tx1 feer0 0 (NewMemPool 1)))
     = (Some ErrOOM, snd (Add tx2 feer0 0 (snd (Add tx1 feer0 0 (NewMemPool 1)))))
   \<and> ContainsKey (snd (Add tx2 feer0 0 (snd (Add tx1 feer0 0 (NewMemPool 1))))) (Hash tx2)
   \<and> verifiedTxes (snd (Add tx2 feer0 0 (snd (Add tx1 feer0 0 (NewMemPool 1)))))
       = [\<lparr>txn = tx1, timeStamp = 0, isLowPrio = False\<rparr>]
   \<and> inputs (snd (Add tx2 feer0 0 (snd (Add tx1 feer0 0 (NewMemPool 1))))) = [in1]"
proof -
  let ?p1 = "snd (Add tx1 feer0 0 (NewMemPool 1))"
  have r: "fst (Add tx2 feer0 0 ?p1) = Some ErrOOM"
    by (simp add: pool_eval)
  then have h: "Add tx2 feer0 0 ?p1 = (Some ErrOOM, snd (Add tx2 feer0 0 ?p1))"
    by (metis prod.collapse)
  have p1: "verifiedTxes ?p1 = [\<lparr>txn = tx1, timeStamp = 0, isLowPrio = False\<rparr>]"
    "inputs ?p1 = [in1]"
    by (simp_all add: pool_eval)
  from Add_OOM_not_atomic [OF h] h p1 show ?thesis by simp
qed

text \<open>
  C1. The coherence of the map, the list and the inputs does not hold in every reachable
  pool: in a pool of capacity 1 that holds \<open>tx1\<close>, \<^verbatim>\<open>Add(tx2)\<close> returns \<^verbatim>\<open>ErrOOM\<close> and leaves
  \<open>tx2\<close> in the map, while the list holds \<open>tx1\<close> only.
\<close>

theorem coherence_broken_by_Add:
  "fst (Add tx2 feer0 0 (pool_run 1 [Ev_Add tx1 feer0 0])) = Some ErrOOM
   \<and> verifiedMap (pool_run 1 [Ev_Add tx1 feer0 0, Ev_Add tx2 feer0 0]) [2]
       = Some \<lparr>txn = tx2, timeStamp = 0, isLowPrio = False\<rparr>
   \<and> verifiedTxes (pool_run 1 [Ev_Add tx1 feer0 0, Ev_Add tx2 feer0 0])
       = [\<lparr>txn = tx1, timeStamp = 0, isLowPrio = False\<rparr>]
   \<and> \<not> pool_coherent (pool_run 1 [Ev_Add tx1 feer0 0, Ev_Add tx2 feer0 0])"
proof -
  let ?p = "pool_run 1 [Ev_Add tx1 feer0 0, Ev_Add tx2 feer0 0]"
  have a: "fst (Add tx2 feer0 0 (pool_run 1 [Ev_Add tx1 feer0 0])) = Some ErrOOM"
    by (simp add: pool_eval)
  have b: "verifiedMap ?p [2] = Some \<lparr>txn = tx2, timeStamp = 0, isLowPrio = False\<rparr>"
    by (simp add: pool_eval)
  have c: "verifiedTxes ?p = [\<lparr>txn = tx1, timeStamp = 0, isLowPrio = False\<rparr>]"
    by (simp add: pool_eval)
  have "\<lparr>txn = tx2, timeStamp = 0, isLowPrio = False\<rparr> \<in> ran (verifiedMap ?p)"
    using b by (rule ranI)
  moreover have "\<lparr>txn = tx2, timeStamp = 0, isLowPrio = False\<rparr> \<notin> set (verifiedTxes ?p)"
    unfolding c by (simp add: tx1_def tx2_def mkTx_def)
  ultimately have "\<not> pool_coherent ?p"
    unfolding pool_coherent_def by blast
  with a b c show ?thesis by blast
qed

text \<open>
  C2. In a pool of capacity 1 that holds \<open>tx1\<close>, adding \<open>tx3\<close> of a higher fee evicts \<open>tx1\<close>
  from the map and the list, but the inputs of \<open>tx1\<close> stay in the inputs sequence and its fee
  stays in the fee sum of its sender.
\<close>

theorem eviction_keeps_inputs_and_fees:
  "fst (Add tx3 feer0 0 (pool_run 1 [Ev_Add tx1 feer0 0])) = None
   \<and> verifiedTxes (pool_run 1 [Ev_Add tx1 feer0 0, Ev_Add tx3 feer0 0])
       = [\<lparr>txn = tx3, timeStamp = 0, isLowPrio = False\<rparr>]
   \<and> verifiedMap (pool_run 1 [Ev_Add tx1 feer0 0, Ev_Add tx3 feer0 0]) (Hash tx1) = None
   \<and> inputs (pool_run 1 [Ev_Add tx1 feer0 0, Ev_Add tx3 feer0 0]) = Inputs tx1
   \<and> Inputs tx1 = [in1]
   \<and> fees (pool_run 1 [Ev_Add tx1 feer0 0, Ev_Add tx3 feer0 0]) (Sender tx1)
       = Some \<lparr>balance = 1000, feeSum = NetworkFee tx1 + NetworkFee tx3\<rparr>"
  by (simp add: pool_eval)

lemma Add_ErrConflict_iff:
  "fst (Add t fee now mp) = Some ErrConflict \<longleftrightarrow> \<not> fst (Verify t fee mp)"
  by (cases "checkTxConflicts t fee mp") (simp add: Add_def Verify_def Let_def)

text \<open>
  C3. \<^verbatim>\<open>Verify\<close> returns false exactly when \<^verbatim>\<open>Add\<close> in the same state returns
  \<^verbatim>\<open>ErrConflict\<close>, the error of its conflict and balance checks. But \<^verbatim>\<open>Verify\<close> does not
  leave the pool as it was: on a pool that has not seen the sender of the transaction it
  stores the balance of that sender in the fees of the pool.
\<close>

theorem Verify_stores_balance:
  "(fst (Add t fee now mp) = Some ErrConflict \<longleftrightarrow> \<not> fst (Verify t fee mp))
   \<and> fst (Verify tx1 feer0 (NewMemPool 1))
   \<and> fees (NewMemPool 1) (Sender tx1) = None
   \<and> fees (snd (Verify tx1 feer0 (NewMemPool 1))) (Sender tx1)
       = Some \<lparr>balance = 1000, feeSum = 0\<rparr>"
  by (simp add: Add_ErrConflict_iff) (simp add: pool_eval)

section \<open>Peer session: the handshake\<close>

lemma less4: "(n::nat) < 4 \<longleftrightarrow> n = 0 \<or> n = 1 \<or> n = 2 \<or> n = 3"
  by auto

lemma bit_stage: "bit (push_bit m (1::8 word)) n \<longleftrightarrow> n = m \<and> m < 8"
  by (auto simp: bit_exp_iff)

lemma stage_bits:
  "bit versionSent n \<longleftrightarrow> n = 0" "bit versionReceived n \<longleftrightarrow> n = 1"
  "bit verAckSent n \<longleftrightarrow> n = 2" "bit verAckReceived n \<longleftrightarrow> n = 3"
  unfolding versionSent_def versionReceived_def verAckSent_def verAckReceived_def bit_stage
  by simp_all

lemma stage_test:
  "h AND versionSent \<noteq> 0 \<longleftrightarrow> bit h 0" "h AND versionReceived \<noteq> 0 \<longleftrightarrow> bit h 1"
  "h AND verAckSent \<noteq> 0 \<longleftrightarrow> bit h 2" "h AND verAckReceived \<noteq> 0 \<longleftrightarrow> bit h 3"
  unfolding versionSent_def versionReceived_def verAckSent_def verAckReceived_def
  by (rule bit_iff_and_push_bit_not_eq_0 [symmetric])+

lemma hs_full_bits:
  "h = (verAckReceived OR verAckSent OR versionReceived OR versionSent) \<longleftrightarrow> (\<forall>n. bit h n \<longleftrightarrow> n < 4)"
proof
  assume "h = (verAckReceived OR verAckSent OR versionReceived OR versionSent)"
  then show "\<forall>n. bit h n \<longleftrightarrow> n < 4"
    by (auto simp: bit_or_iff stage_bits)
next
  assume a: "\<forall>n. bit h n \<longleftrightarrow> n < 4"
  show "h = (verAckReceived OR verAckSent OR versionReceived OR versionSent)"
  proof (rule bit_eqI)
    fix n :: nat
    have "n < 4 \<longleftrightarrow> n = 0 \<or> n = 1 \<or> n = 2 \<or> n = 3" by arith
    then show "bit h n \<longleftrightarrow> bit (verAckReceived OR verAckSent OR versionReceived OR versionSent) n"
      using a by (auto simp: bit_or_iff stage_bits)
  qed
qed

lemma hs_full_iff:
  assumes "hs_low h"
  shows "h = (verAckReceived OR verAckSent OR versionReceived OR versionSent) \<longleftrightarrow>
         h AND versionSent \<noteq> 0 \<and> h AND versionReceived \<noteq> 0 \<and> h AND verAckSent \<noteq> 0 \<and> h AND verAckReceived \<noteq> 0"
proof -
  have "(\<forall>n. bit h n \<longleftrightarrow> n < 4) \<longleftrightarrow> bit h 0 \<and> bit h 1 \<and> bit h 2 \<and> bit h 3"
  proof
    assume "\<forall>n. bit h n \<longleftrightarrow> n < 4"
    then show "bit h 0 \<and> bit h 1 \<and> bit h 2 \<and> bit h 3" by simp
  next
    assume b: "bit h 0 \<and> bit h 1 \<and> bit h 2 \<and> bit h 3"
    show "\<forall>n. bit h n \<longleftrightarrow> n < 4"
    proof
      fix n
      show "bit h n \<longleftrightarrow> n < 4"
      proof (cases "n < 4")
        case True
        then have "n = 0 \<or> n = 1 \<or> n = 2 \<or> n = 3" by arith
        with b True show ?thesis by auto
      next
        case False
        with assms show ?thesis by (simp add: hs_low_def)
      qed
    qed
  qed
  then show ?thesis
    unfolding hs_full_bits stage_test .
qed

lemma hs_low_0: "hs_low 0" by (simp add: hs_low_def)

lemma hs_low_or:
  "hs_low h \<Longrightarrow> hs_low (h OR versionSent) \<and> hs_low (h OR versionReceived) \<and> hs_low (h OR verAckSent) \<and> hs_low (h OR verAckReceived)"
  unfolding hs_low_def
  by (auto simp: bit_or_iff stage_bits)

lemma handShake_putPacketIntoQueue:
  "handShake (outcome_peer (putPacketIntoQueue pick q msg p)) = handShake p"
  by (cases q) (simp_all add: putPacketIntoQueue_def)

lemma handShake_putMsgIntoQueue:
  "handShake (outcome_peer (putMsgIntoQueue pick q msg p)) = handShake p"
  by (simp add: putMsgIntoQueue_def handShake_putPacketIntoQueue split: sum.split)

lemma handShake_SendPing:
  "handShake (outcome_peer (SendPing pick msg p)) = handShake p"
  by (simp add: SendPing_def EnqueueMessage_def handShake_putMsgIntoQueue)

lemma handShake_HandlePong: "handShake (snd (HandlePong pong p)) = handShake p"
  by (simp add: HandlePong_def Let_def)

lemma handShake_timer_expires: "handShake (timer_expires p) = handShake p"
  by (simp add: timer_expires_def Disconnect_def split: option.split timer.split)

lemma handShake_Disconnect: "handShake (Disconnect err p) = handShake p"
  by (simp add: Disconnect_def)

lemma hs_low_peer_step:
  assumes "hs_low (handShake p)"
  shows "hs_low (handShake (peer_step p ev))"
proof (cases ev)
  case (Ev_SendVersion wr)
  with assms hs_low_or [of "handShake p"] show ?thesis
    by (simp add: SendVersion_def split: option.split)
next
  case (Ev_HandleVersion v)
  with assms hs_low_or [of "handShake p"] show ?thesis
    by (simp add: HandleVersion_def)
next
  case (Ev_SendVersionAck wr)
  with assms hs_low_or [of "handShake p"] show ?thesis
    by (simp add: SendVersionAck_def split: option.split)
next
  case Ev_HandleVersionAck
  with assms hs_low_or [of "handShake p"] show ?thesis
    by (simp add: HandleVersionAck_def)
qed (use assms in \<open>simp_all add: handShake_SendPing handShake_HandlePong handShake_timer_expires
       handShake_Disconnect handShake_putPacketIntoQueue handShake_putMsgIntoQueue\<close>)

lemma hs_low_foldl:
  "hs_low (handShake p) \<Longrightarrow> hs_low (handShake (foldl peer_step p evs))"
  by (induction evs arbitrary: p) (simp_all add: hs_low_peer_step)

lemma hs_low_peer_run: "hs_low (handShake (peer_run evs))"
  unfolding peer_run_def by (rule hs_low_foldl) (simp add: NewTCPPeer_def hs_low_0)

lemma Handshaked_reachable: "Handshaked (peer_run evs) \<longleftrightarrow> all_four_bits (peer_run evs)"
  unfolding Handshaked_def all_four_bits_def by (rule hs_full_iff [OF hs_low_peer_run])

lemma SendVersion_error:
  "fst (SendVersion wr p) \<noteq> None \<longleftrightarrow> \<not> pre_SendVersion p \<or> wr \<noteq> None"
  by (simp add: SendVersion_def pre_SendVersion_def split: option.split)

lemma SendVersion_state:
  "snd (SendVersion wr p) =
     (if fst (SendVersion wr p) = None then p\<lparr>handShake := handShake p OR versionSent\<rparr> else p)"
  by (simp add: SendVersion_def split: option.split)

lemma HandleVersion_error:
  "fst (HandleVersion v p) \<noteq> None \<longleftrightarrow> \<not> pre_HandleVersion p"
  by (simp add: HandleVersion_def pre_HandleVersion_def)

lemma HandleVersion_state:
  "snd (HandleVersion v p) =
     (if fst (HandleVersion v p) = None
      then p\<lparr>version := Some v, lastBlockIndex := StartHeight v,
              handShake := handShake p OR versionReceived\<rparr>
      else p)"
  by (simp add: HandleVersion_def)

lemma SendVersionAck_error:
  "fst (SendVersionAck wr p) \<noteq> None \<longleftrightarrow> \<not> pre_SendVersionAck p \<or> wr \<noteq> None"
  by (simp add: SendVersionAck_def pre_SendVersionAck_def split: option.split)

lemma SendVersionAck_state:
  "snd (SendVersionAck wr p) =
     (if fst (SendVersionAck wr p) = None then p\<lparr>handShake := handShake p OR verAckSent\<rparr> else p)"
  by (simp add: SendVersionAck_def split: option.split)

lemma HandleVersionAck_error:
  "fst (HandleVersionAck p) \<noteq> None \<longleftrightarrow> \<not> pre_HandleVersionAck p"
  by (simp add: HandleVersionAck_def pre_HandleVersionAck_def)

lemma HandleVersionAck_state:
  "snd (HandleVersionAck p) =
     (if fst (HandleVersionAck p) = None then p\<lparr>handShake := handShake p OR verAckReceived\<rparr> else p)"
  by (simp add: HandleVersionAck_def)

text \<open>
  C5 (amended). Each receiving operation (\<^verbatim>\<open>HandleVersion\<close>, \<^verbatim>\<open>HandleVersionAck\<close>) returns an
  error exactly when its precondition over the four bits is unmet; each sending operation
  (\<^verbatim>\<open>SendVersion\<close>, \<^verbatim>\<open>SendVersionAck\<close>) returns an error exactly when its precondition is
  unmet or the write of the message fails. An operation that returns an error leaves the peer
  as it was; one that succeeds sets its own bit and no other (\<^verbatim>\<open>HandleVersion\<close> also stores
  the version and its start height). In every state a fresh peer can reach, \<^verbatim>\<open>Handshaked\<close>
  holds iff all four bits are set.
\<close>

theorem handshake_state_machine:
  "(fst (SendVersion wr p) \<noteq> None \<longleftrightarrow> \<not> pre_SendVersion p \<or> wr \<noteq> None)
   \<and> (fst (HandleVersion v p) \<noteq> None \<longleftrightarrow> \<not> pre_HandleVersion p)
   \<and> (fst (SendVersionAck wr p) \<noteq> None \<longleftrightarrow> \<not> pre_SendVersionAck p \<or> wr \<noteq> None)
   \<and> (fst (HandleVersionAck p) \<noteq> None \<longleftrightarrow> \<not> pre_HandleVersionAck p)
   \<and> snd (SendVersion wr p) =
       (if fst (SendVersion wr p) = None then p\<lparr>handShake := handShake p OR versionSent\<rparr> else p)
   \<and> snd (HandleVersion v p) =
       (if fst (HandleVersion v p) = None
        then p\<lparr>version := Some v, lastBlockIndex := StartHeight v,
                handShake := handShake p OR versionReceived\<rparr>
        else p)
   \<and> snd (SendVersionAck wr p) =
       (if fst (SendVersionAck wr p) = None then p\<lparr>handShake := handShake p OR verAckSent\<rparr> else p)
   \<and> snd (HandleVersionAck p) =
       (if fst (HandleVersionAck p) = None then p\<lparr>handShake := handShake p OR verAckReceived\<rparr>
        else p)
   \<and> (Handshaked (peer_run evs) \<longleftrightarrow> all_four_bits (peer_run evs))"
  by (intro conjI SendVersion_error HandleVersion_error SendVersionAck_error
      HandleVersionAck_error SendVersion_state HandleVersion_state SendVersionAck_state
      HandleVersionAck_state Handshaked_reachable)

text \<open>
  The claim as stated fails: on a fresh peer the precondition of \<^verbatim>\<open>SendVersion\<close> holds, and
  the operation still returns an error when the write fails.
\<close>

theorem handshake_error_counterexample:
  "\<not> (fst (SendVersion (Some errConnWrite) NewTCPPeer) \<noteq> None
        \<longleftrightarrow> \<not> pre_SendVersion NewTCPPeer)"
  by (simp add: SendVersion_def pre_SendVersion_def NewTCPPeer_def)

lemma peer_run_hs_events: "handShake (peer_run hs_events) = 15"
  by (simp add: peer_run_def hs_events_def NewTCPPeer_def SendVersion_def HandleVersion_def
      SendVersionAck_def HandleVersionAck_def versionSent_def versionReceived_def verAckSent_def
      verAckReceived_def)

theorem handshake_state_machine_witness:
  "Handshaked (peer_run hs_events) \<and> all_four_bits (peer_run hs_events)
   \<and> fst (SendVersion (Some errConnWrite) NewTCPPeer) \<noteq> None
   \<and> snd (SendVersion (Some errConnWrite) NewTCPPeer) = NewTCPPeer
   \<and> pre_HandleVersion NewTCPPeer
   \<and> fst (HandleVersion \<lparr>StartHeight = 5\<rparr> NewTCPPeer) = None
   \<and> handShake (snd (HandleVersion \<lparr>StartHeight = 5\<rparr> NewTCPPeer)) = versionReceived
   \<and> \<not> pre_SendVersionAck NewTCPPeer
   \<and> fst (SendVersionAck (Some errConnWrite) NewTCPPeer) \<noteq> None
   \<and> \<not> pre_HandleVersionAck NewTCPPeer
   \<and> snd (HandleVersionAck NewTCPPeer) = NewTCPPeer"
proof -
  have a: "all_four_bits (peer_run hs_events)"
    by (simp add: all_four_bits_def peer_run_hs_events versionSent_def versionReceived_def
        verAckSent_def verAckReceived_def)
  have b: "pre_HandleVersion NewTCPPeer" "\<not> pre_SendVersionAck NewTCPPeer"
    "\<not> pre_HandleVersionAck NewTCPPeer"
    by (simp_all add: pre_HandleVersion_def pre_SendVersionAck_def pre_HandleVersionAck_def
        NewTCPPeer_def)
  have c: "handShake NewTCPPeer = 0"
    by (simp add: NewTCPPeer_def)
  show ?thesis
    using a b c
      handshake_state_machine [of "Some errConnWrite" NewTCPPeer "\<lparr>StartHeight = 5\<rparr>" hs_events]
    by auto
qed

section \<open>Peer session: pings and pongs\<close>

lemma putPacketIntoQueue_fields:
  "pingTimer (outcome_peer (putPacketIntoQueue pick q msg p)) = pingTimer p"
  "done_closed (outcome_peer (putPacketIntoQueue pick q msg p)) = done_closed p"
  "finale (outcome_peer (putPacketIntoQueue pick q msg p)) = finale p"
  by (cases q; simp add: putPacketIntoQueue_def)+

lemma putMsgIntoQueue_fields:
  "pingTimer (outcome_peer (putMsgIntoQueue pick q msg p)) = pingTimer p"
  "done_closed (outcome_peer (putMsgIntoQueue pick q msg p)) = done_closed p"
  "finale (outcome_peer (putMsgIntoQueue pick q msg p)) = finale p"
  by (simp_all add: putMsgIntoQueue_def putPacketIntoQueue_fields split: sum.split)

lemma timer_inv_putPacketIntoQueue:
  "timer_inv p \<Longrightarrow> timer_inv (outcome_peer (putPacketIntoQueue pick q msg p))"
  by (simp add: timer_inv_def putPacketIntoQueue_fields)

lemma timer_inv_putMsgIntoQueue:
  "timer_inv p \<Longrightarrow> timer_inv (outcome_peer (putMsgIntoQueue pick q msg p))"
  by (simp add: timer_inv_def putMsgIntoQueue_fields)

lemma timer_inv_SendPing:
  "timer_inv p \<Longrightarrow> timer_inv (outcome_peer (SendPing pick msg p))"
  by (auto simp: SendPing_def EnqueueMessage_def timer_inv_def putMsgIntoQueue_fields
      split: option.splits)

lemma timer_inv_HandlePong: "timer_inv p \<Longrightarrow> timer_inv (snd (HandlePong pong p))"
  by (cases "pingTimer p"; cases "the (pingTimer p)")
     (auto simp: HandlePong_def timer_inv_def Let_def)

lemma timer_inv_Disconnect: "timer_inv p \<Longrightarrow> timer_inv (Disconnect err p)"
  by (simp add: Disconnect_def timer_inv_def)

lemma timer_inv_timer_expires: "timer_inv p \<Longrightarrow> timer_inv (timer_expires p)"
  by (auto simp: timer_expires_def Disconnect_def timer_inv_def split: option.splits timer.splits)

lemma timer_inv_peer_step:
  assumes "timer_inv p"
  shows "timer_inv (peer_step p ev)"
proof (cases ev)
  case (Ev_SendVersion wr)
  with assms show ?thesis
    by (simp add: SendVersion_def timer_inv_def split: option.split)
next
  case (Ev_HandleVersion v)
  with assms show ?thesis
    by (simp add: HandleVersion_def timer_inv_def)
next
  case (Ev_SendVersionAck wr)
  with assms show ?thesis
    by (simp add: SendVersionAck_def timer_inv_def split: option.split)
next
  case Ev_HandleVersionAck
  with assms show ?thesis
    by (simp add: HandleVersionAck_def timer_inv_def)
qed (use assms in \<open>simp_all add: timer_inv_SendPing timer_inv_HandlePong timer_inv_Disconnect
       timer_inv_timer_expires timer_inv_putPacketIntoQueue timer_inv_putMsgIntoQueue\<close>)

lemma timer_inv_foldl: "timer_inv p \<Longrightarrow> timer_inv (foldl peer_step p evs)"
  by (induction evs arbitrary: p) (simp_all add: timer_inv_peer_step)

lemma timer_inv_peer_run: "timer_inv (peer_run evs)"
  unfolding peer_run_def by (rule timer_inv_foldl) (simp add: NewTCPPeer_def timer_inv_def)

lemma stop_fails_reachable:
  "stop_fails (pingTimer (peer_run evs)) \<longleftrightarrow> pingTimer (peer_run evs) = Some Expired"
  using timer_inv_peer_run [of evs]
  by (cases "pingTimer (peer_run evs)"; cases "the (pingTimer (peer_run evs))")
     (auto simp: timer_inv_def)

lemma expired_reachable:
  "pingTimer (peer_run evs) = Some Expired \<Longrightarrow> done_closed (peer_run evs)"
  using timer_inv_peer_run [of evs] by (simp add: timer_inv_def)

lemma HandlePong_result:
  "fst (HandlePong pong p) =
     (if stop_fails (pingTimer p) then Some errPingPong
      else if pingSent p - 1 <s 0 then Some errUnexpectedPong
      else None)"
  by (simp add: HandlePong_def Let_def)

lemma HandlePong_counter:
  "\<not> stop_fails (pingTimer p) \<Longrightarrow> pingSent (snd (HandlePong pong p)) = pingSent p - 1"
  by (simp add: HandlePong_def Let_def)

lemma timer_expires_disconnects:
  "pingTimer p = Some Pending \<Longrightarrow> \<not> finale p \<Longrightarrow>
     pingTimer (timer_expires p) = Some Expired \<and> done_closed (timer_expires p)
     \<and> unregister (timer_expires p) = Some (Some errPingPong)"
  by (simp add: timer_expires_def Disconnect_def)

text \<open>
  C6. \<^verbatim>\<open>HandlePong\<close> returns \<^verbatim>\<open>errPingPong\<close> exactly when the peer holds a timer whose
  \<^verbatim>\<open>Stop\<close> fails; otherwise it decrements the counter of pings and returns
  \<^verbatim>\<open>errUnexpectedPong\<close> exactly when the counter has become negative, and \<^verbatim>\<open>nil\<close> if not.
  In every state a fresh peer can reach, the timer whose \<^verbatim>\<open>Stop\<close> fails is one that has
  expired, and \<^verbatim>\<open>done\<close> is closed; the expiry of a pending timer runs the callback, which
  disconnects a session that was not disconnected yet with \<^verbatim>\<open>errPingPong\<close>.
\<close>

theorem HandlePong_errors:
  "fst (HandlePong pong p) =
     (if stop_fails (pingTimer p) then Some errPingPong
      else if pingSent p - 1 <s 0 then Some errUnexpectedPong
      else None)
   \<and> (\<not> stop_fails (pingTimer p) \<longrightarrow> pingSent (snd (HandlePong pong p)) = pingSent p - 1)
   \<and> (stop_fails (pingTimer (peer_run evs)) \<longleftrightarrow> pingTimer (peer_run evs) = Some Expired)
   \<and> (pingTimer (peer_run evs) = Some Expired \<longrightarrow> done_closed (peer_run evs))
   \<and> (pingTimer p = Some Pending \<and> \<not> finale p \<longrightarrow>
        pingTimer (timer_expires p) = Some Expired \<and> done_closed (timer_expires p)
        \<and> unregister (timer_expires p) = Some (Some errPingPong))"
  by (simp add: HandlePong_result HandlePong_counter stop_fails_reachable expired_reachable
      timer_expires_disconnects)

lemma peer_run_ping_sent_events:
  "pingTimer (peer_run ping_sent_events) = Some Pending"
  "\<not> finale (peer_run ping_sent_events)"
  "peer_run ping_events = timer_expires (peer_run ping_sent_events)"
  by (simp_all add: peer_run_def ping_events_def ping_sent_events_def NewTCPPeer_def
      SendVersion_def HandleVersion_def SendVersionAck_def HandleVersionAck_def versionSent_def
      versionReceived_def verAckSent_def verAckReceived_def SendPing_def Handshaked_def
      EnqueueMessage_def putMsgIntoQueue_def putPacketIntoQueue_def requestQueueSize_def)

theorem HandlePong_errors_witness:
  "pingTimer (peer_run ping_sent_events) = Some Pending
   \<and> \<not> finale (peer_run ping_sent_events)
   \<and> unregister (peer_run ping_events) = Some (Some errPingPong)
   \<and> stop_fails (pingTimer (peer_run ping_events))
   \<and> done_closed (peer_run ping_events)
   \<and> fst (HandlePong \<lparr>LastBlockIndex = 7\<rparr> (peer_run ping_events)) = Some errPingPong
   \<and> \<not> stop_fails (pingTimer NewTCPPeer)
   \<and> fst (HandlePong \<lparr>LastBlockIndex = 7\<rparr> NewTCPPeer) = Some errUnexpectedPong
   \<and> pingSent (snd (HandlePong \<lparr>LastBlockIndex = 7\<rparr> NewTCPPeer)) = - 1"
proof -
  have a: "pingTimer NewTCPPeer = None" "pingSent NewTCPPeer = 0"
    by (simp_all add: NewTCPPeer_def)
  note s = peer_run_ping_sent_events
  from s HandlePong_errors [of "\<lparr>LastBlockIndex = 7\<rparr>" "peer_run ping_sent_events" "[]"]
  have b: "pingTimer (peer_run ping_events) = Some Expired"
    "unregister (peer_run ping_events) = Some (Some errPingPong)"
    by simp_all
  from a b s(1,2)
    HandlePong_errors [of "\<lparr>LastBlockIndex = 7\<rparr>" "peer_run ping_events" ping_events]
    HandlePong_errors [of "\<lparr>LastBlockIndex = 7\<rparr>" NewTCPPeer "[]"]
  show ?thesis by simp
qed

section \<open>Peer session: the send queues\<close>

text \<open>
  C10 (amended). Before the handshake is complete \<^verbatim>\<open>putPacketIntoQueue\<close>, hence each of
  \<^verbatim>\<open>EnqueuePacket\<close>, \<^verbatim>\<open>EnqueueP2PPacket\<close> and \<^verbatim>\<open>EnqueueHPPacket\<close>, returns
  \<^verbatim>\<open>errStateMismatch\<close> and leaves the peer, so its three queues, as it was. After the
  handshake it returns \<^verbatim>\<open>nil\<close> with the message at the end of its queue, which had room, or
  returns \<^verbatim>\<open>errGone\<close> with \<^verbatim>\<open>done\<close> closed and the peer as it was, or waits, the queue full
  and \<^verbatim>\<open>done\<close> open. \<^verbatim>\<open>EnqueueMessage\<close> and \<^verbatim>\<open>EnqueueP2PMessage\<close> serialise the message
  first: they return the error of the serialisation with the peer as it was, whatever the
  state of the handshake, and act as the packet operations on the bytes otherwise.
\<close>

theorem enqueue_operations:
  "(\<not> Handshaked p \<longrightarrow> putPacketIntoQueue pick q b p = Return (Some errStateMismatch) p)
   \<and> (Handshaked p \<longrightarrow>
        putPacketIntoQueue pick q b p = Return None (queue_send q b p)
          \<and> length (queue_contents q p) < queue_cap q
        \<or> putPacketIntoQueue pick q b p = Return (Some errGone) p \<and> done_closed p
        \<or> putPacketIntoQueue pick q b p = Blocks p \<and> \<not> done_closed p
          \<and> queue_cap q \<le> length (queue_contents q p))
   \<and> EnqueuePacket pick b p = putPacketIntoQueue pick The_sendQ b p
   \<and> EnqueueP2PPacket pick b p = putPacketIntoQueue pick The_p2pSendQ b p
   \<and> EnqueueHPPacket pick b p = putPacketIntoQueue pick The_hpSendQ b p
   \<and> EnqueueMessage pick msg p =
       (case Bytes msg of Inl err \<Rightarrow> Return (Some err) p
        | Inr b' \<Rightarrow> putPacketIntoQueue pick The_sendQ b' p)
   \<and> EnqueueP2PMessage pick msg p =
       (case Bytes msg of Inl err \<Rightarrow> Return (Some err) p
        | Inr b' \<Rightarrow> putPacketIntoQueue pick The_p2pSendQ b' p)"
  by (auto simp: putPacketIntoQueue_def EnqueuePacket_def EnqueueP2PPacket_def EnqueueHPPacket_def
      EnqueueMessage_def EnqueueP2PMessage_def putMsgIntoQueue_def)

text \<open>
  The claim as stated fails: on a fresh peer \<^verbatim>\<open>EnqueueMessage\<close> of a message that cannot be
  serialised returns the error of the serialisation, not \<^verbatim>\<open>errStateMismatch\<close>.
\<close>

theorem enqueue_counterexample:
  "\<not> (\<not> Handshaked NewTCPPeer \<longrightarrow>
        EnqueueMessage True \<lparr>Bytes = Inl errSerialize\<rparr> NewTCPPeer
          = Return (Some errStateMismatch) NewTCPPeer)"
  by (simp add: EnqueueMessage_def putMsgIntoQueue_def Handshaked_def NewTCPPeer_def
      versionSent_def versionReceived_def verAckSent_def verAckReceived_def)

theorem enqueue_operations_witness:
  "\<not> Handshaked NewTCPPeer
   \<and> putPacketIntoQueue True The_hpSendQ [1] NewTCPPeer = Return (Some errStateMismatch) NewTCPPeer
   \<and> Handshaked (peer_run hs_events)
   \<and> putPacketIntoQueue True The_hpSendQ [1] (peer_run hs_events)
       = Return None (queue_send The_hpSendQ [1] (peer_run hs_events))"
proof -
  have a: "\<not> Handshaked NewTCPPeer"
    by (simp add: Handshaked_def NewTCPPeer_def versionSent_def versionReceived_def
        verAckSent_def verAckReceived_def)
  have b: "Handshaked (peer_run hs_events)"
    by (simp add: Handshaked_def peer_run_hs_events versionSent_def versionReceived_def
        verAckSent_def verAckReceived_def)
  have c: "\<not> done_closed (peer_run hs_events)" "hpSendQ (peer_run hs_events) = []"
    by (simp_all add: peer_run_def hs_events_def NewTCPPeer_def SendVersion_def HandleVersion_def
        SendVersionAck_def HandleVersionAck_def versionSent_def versionReceived_def
        verAckSent_def verAckReceived_def)
  from a b c
    enqueue_operations [of NewTCPPeer True The_hpSendQ "[1]" "\<lparr>Bytes = Inr [1]\<rparr>"]
    enqueue_operations [of "peer_run hs_events" True The_hpSendQ "[1]" "\<lparr>Bytes = Inr [1]\<rparr>"]
  show ?thesis by (auto simp: hpRequestQueueSize_def)
qed

section \<open>Data access: placeholders of conflicting transactions\<close>

text \<open>
  C7. When the value stored under the key of a hash has the dummy version byte at offset 4,
  \<^verbatim>\<open>GetTransaction\<close> returns \<^verbatim>\<open>ErrKeyNotFound\<close> and \<^verbatim>\<open>HasTransaction\<close> returns
  \<^verbatim>\<open>ErrHasConflicts\<close>; when the value is that of a stored transaction (five bytes or more,
  another byte at offset 4), \<^verbatim>\<open>HasTransaction\<close> returns \<^verbatim>\<open>ErrAlreadyExists\<close>; when the key is
  absent, \<^verbatim>\<open>HasTransaction\<close> returns \<^verbatim>\<open>nil\<close>.
\<close>

theorem dummy_transaction_placeholder:
  "(Store_Get dao (tx_key c hash) = Inr b \<and> 5 \<le> length b \<and> b ! 4 = DummyVersion c \<longrightarrow>
      GetTransaction c dao hash = Inl ErrKeyNotFound
      \<and> HasTransaction c dao hash = Some ErrHasConflicts)
   \<and> (Store_Get dao (tx_key c hash) = Inr b \<and> 5 \<le> length b \<and> b ! 4 \<noteq> DummyVersion c \<longrightarrow>
      HasTransaction c dao hash = Some ErrAlreadyExists)
   \<and> (Store_Get dao (tx_key c hash) = Inl ErrKeyNotFound \<longrightarrow>
      HasTransaction c dao hash = None)"
  by (simp add: GetTransaction_def HasTransaction_def tx_key_def)

theorem dummy_transaction_placeholder_witness:
  "GetTransaction test_params test_dao [1] = Inl ErrKeyNotFound
   \<and> HasTransaction test_params test_dao [1] = Some ErrHasConflicts
   \<and> HasTransaction test_params test_dao [3] = Some ErrAlreadyExists
   \<and> HasTransaction test_params test_dao [4] = None"
proof -
  have a: "Store_Get test_dao (tx_key test_params [1]) = Inr [7, 0, 0, 0, 255]"
    "Store_Get test_dao (tx_key test_params [3]) = Inr [7, 0, 0, 0, 0, 9]"
    "Store_Get test_dao (tx_key test_params [4]) = Inl ErrKeyNotFound"
    "DummyVersion test_params = 255"
    by (simp_all add: test_dao_def test_params_def tx_key_def AppendPrefix_def BytesBE_def)
  show ?thesis
    using dummy_transaction_placeholder [of test_dao test_params "[1]" "[7, 0, 0, 0, 255]"]
      dummy_transaction_placeholder [of test_dao test_params "[3]" "[7, 0, 0, 0, 0, 9]"]
      dummy_transaction_placeholder [of test_dao test_params "[4]" "[]"]
    by (simp add: a)
qed

section \<open>Merkle-Patricia trie: proofs verify\<close>

lemma makeStorageKey_inj: "makeStorageKey c a = makeStorageKey c b \<longleftrightarrow> a = b"
  by (simp add: makeStorageKey_def)

lemma proof_store_snoc:
  "proof_store c (ps @ [p]) = (proof_store c ps)(makeStorageKey c (DoubleSha256 c p) \<mapsto> p)"
  by (simp add: proof_store_def)

lemma proof_store_covers:
  "inj_on (DoubleSha256 c) (set ps) \<Longrightarrow> p \<in> set ps \<Longrightarrow>
     proof_store c ps (makeStorageKey c (DoubleSha256 c p)) = Some p"
proof (induction ps rule: rev_induct)
  case Nil
  then show ?case by simp
next
  case (snoc q qs)
  show ?case
  proof (cases "p = q")
    case True
    then show ?thesis by (simp add: proof_store_snoc)
  next
    case False
    with snoc.prems have pq: "p \<in> set qs" by simp
    from snoc.prems have inj: "inj_on (DoubleSha256 c) (set qs)"
      by (simp add: inj_on_def)
    from snoc.prems False pq have "DoubleSha256 c p \<noteq> DoubleSha256 c q"
      by (auto simp: inj_on_def)
    with snoc.IH [OF inj pq] show ?thesis
      by (simp add: proof_store_snoc makeStorageKey_inj)
  qed
qed

lemma ref_not_HashNode:
  "\<not> is_HashNode n \<Longrightarrow> ref c n = HashNode (Some (DoubleSha256 c (NodeBytes c n)))"
  by (cases n) simp_all

lemma shallow_not_HashNode: "\<not> is_HashNode n \<Longrightarrow> \<not> is_HashNode (shallow c n)"
  by (cases n) simp_all

lemma ref_ref: "ref c (ref c m) = ref c m"
  by (cases m) simp_all

lemma shallow_shallow: "shallow c (shallow c n) = shallow c n"
  by (cases n) (simp_all add: ref_ref)

lemma trie_ok_ref: "trie_ok c (ref c m)"
  by (cases m) simp_all

text \<open>A node as its serialisation shows it is a node of a trie again.\<close>

lemma trie_ok_shallow:
  assumes "node_ok c n"
  shows "trie_ok c (shallow c n)"
proof -
  from assms have len: "case n of BranchNode children \<Rightarrow> length children = 17 | _ \<Rightarrow> True"
    and dec: "DecodeNode c (NodeBytes c n) = Some (shallow c n)"
    and can: "NodeBytes c (shallow c n) = NodeBytes c n"
    unfolding node_ok_def by blast+
  from len have "case shallow c n of BranchNode children \<Rightarrow> length children = 17 | _ \<Rightarrow> True"
    by (cases n) simp_all
  with dec can have "node_ok c (shallow c n)"
    unfolding node_ok_def by (simp add: shallow_shallow)
  then show ?thesis
    by (cases n) (simp_all add: trie_ok_ref)
qed

lemma getFromStore_ok:
  assumes "store_ok c S" and "getFromStore c S h = Inr r"
  shows "\<not> is_HashNode r \<and> ref c r = HashNode (Some h) \<and> trie_ok c r"
proof -
  from assms(2) obtain data where d: "S (makeStorageKey c h) = Some data"
    "DecodeNode c data = Some r"
    by (auto simp: getFromStore_def split: option.splits)
  with assms(1) have r: "\<not> is_HashNode r" "trie_ok c r" "DoubleSha256 c (NodeBytes c r) = h"
    unfolding store_ok_def by blast+
  then show ?thesis by (simp add: ref_not_HashNode)
qed

text \<open>What the verifier sees behind the reference of a node whose bytes it holds.\<close>

lemma resolve_ref:
  assumes "node_ok c n"
    and "S' (makeStorageKey c (DoubleSha256 c (NodeBytes c n))) = Some (NodeBytes c n)"
    and "\<not> is_HashNode n"
  shows "getWithPath c S' (Suc fuel) (ref c n) path = getWithPath c S' fuel (shallow c n) path"
proof -
  from assms(1) have "DecodeNode c (NodeBytes c n) = Some (shallow c n)"
    unfolding node_ok_def by blast
  with assms(2) have "getFromStore c S' (DoubleSha256 c (NodeBytes c n)) = Inr (shallow c n)"
    by (simp add: getFromStore_def)
  with assms(3) show ?thesis by (simp add: ref_not_HashNode)
qed

lemma getProof_verifies:
  assumes "store_ok c S"
  shows "trie_ok c cur \<Longrightarrow> getProof c S fuel cur path acc = Some (ps, Inr r) \<Longrightarrow>
    \<exists>qs v r'. ps = acc @ qs
      \<and> getWithPath c S fuel cur path = Some (Inr (r', v))
      \<and> (\<forall>S'. (\<forall>p \<in> set qs. S' (makeStorageKey c (DoubleSha256 c p)) = Some p) \<longrightarrow>
            (\<exists>fuel' r''. getWithPath c S' fuel' (ref c cur) path = Some (Inr (r'', v))))"
proof (induction fuel arbitrary: cur path acc ps r)
  case 0
  then show ?case by simp
next
  case (Suc fuel)
  note tok = Suc.prems(1)
  note run = Suc.prems(2)
  show ?case
  proof (cases cur)
    case (LeafNode val)
    from tok LeafNode have nok: "node_ok c cur"
      by simp
    from run LeafNode have p: "path = []" and ps: "ps = acc @ [NodeBytes c cur]"
      by (auto split: if_splits)
    have "\<exists>fuel' r''. getWithPath c S' fuel' (ref c cur) path = Some (Inr (r'', val))"
      if "\<forall>p \<in> set [NodeBytes c cur]. S' (makeStorageKey c (DoubleSha256 c p)) = Some p" for S'
    proof -
      from that have "S' (makeStorageKey c (DoubleSha256 c (NodeBytes c cur))) = Some (NodeBytes c cur)"
        by simp
      from resolve_ref [of c cur S' "Suc 0" path, OF nok this] LeafNode p
      have "getWithPath c S' (Suc (Suc 0)) (ref c cur) path = Some (Inr (LeafNode val, val))"
        by simp
      then show ?thesis by blast
    qed
    with LeafNode p ps show ?thesis by auto
  next
    case (BranchNode children)
    let ?i = "unat (fst (splitPath path))"
    let ?acc = "acc @ [NodeBytes c cur]"
    from tok BranchNode have nok: "node_ok c cur"
      by simp
    from run BranchNode have i: "?i < length children"
      by (simp split: if_splits)
    with tok BranchNode have tok': "trie_ok c (children ! ?i)"
      by simp
    from run BranchNode i obtain r0 where
      sub: "getProof c S fuel (children ! ?i) (snd (splitPath path)) ?acc = Some (ps, Inr r0)"
      by (auto split: option.splits sum.splits)
    from Suc.IH [OF tok' sub] obtain qs v r' where
      qs: "ps = ?acc @ qs"
      and g: "getWithPath c S fuel (children ! ?i) (snd (splitPath path)) = Some (Inr (r', v))"
      and ver: "\<And>S'. (\<forall>p \<in> set qs. S' (makeStorageKey c (DoubleSha256 c p)) = Some p) \<Longrightarrow>
            (\<exists>fuel' r''. getWithPath c S' fuel' (ref c (children ! ?i)) (snd (splitPath path))
               = Some (Inr (r'', v)))"
      by blast
    have "\<exists>fuel' r''. getWithPath c S' fuel' (ref c cur) path = Some (Inr (r'', v))"
      if cov: "\<forall>p \<in> set (NodeBytes c cur # qs). S' (makeStorageKey c (DoubleSha256 c p)) = Some p"
      for S'
    proof -
      from cov have here: "S' (makeStorageKey c (DoubleSha256 c (NodeBytes c cur))) = Some (NodeBytes c cur)"
        and rest: "\<forall>p \<in> set qs. S' (makeStorageKey c (DoubleSha256 c p)) = Some p"
        by simp_all
      from ver [OF rest] obtain fuel' r'' where
        v: "getWithPath c S' fuel' (ref c (children ! ?i)) (snd (splitPath path)) = Some (Inr (r'', v))"
        by blast
      note rr = resolve_ref [of c cur S', OF nok here]
      have "getWithPath c S' (Suc (Suc fuel')) (ref c cur) path
              = getWithPath c S' (Suc fuel') (shallow c cur) path"
        by (rule rr) (simp add: BranchNode)
      also have "\<dots> = Some (Inr (BranchNode ((map (ref c) children)[?i := r'']), v))"
        using i v by (simp add: BranchNode)
      finally show ?thesis by blast
    qed
    with qs g i BranchNode show ?thesis by auto
  next
    case (ExtensionNode key nxt)
    let ?acc = "acc @ [NodeBytes c cur]"
    from tok ExtensionNode have nok: "node_ok c cur" and tok': "trie_ok c nxt"
      by simp_all
    from run ExtensionNode have k: "take (length key) path = key"
      by (simp split: if_splits)
    from run ExtensionNode k obtain r0 where
      sub: "getProof c S fuel nxt (drop (length key) path) ?acc = Some (ps, Inr r0)"
      by (auto split: option.splits sum.splits)
    from Suc.IH [OF tok' sub] obtain qs v r' where
      qs: "ps = ?acc @ qs"
      and g: "getWithPath c S fuel nxt (drop (length key) path) = Some (Inr (r', v))"
      and ver: "\<And>S'. (\<forall>p \<in> set qs. S' (makeStorageKey c (DoubleSha256 c p)) = Some p) \<Longrightarrow>
            (\<exists>fuel' r''. getWithPath c S' fuel' (ref c nxt) (drop (length key) path)
               = Some (Inr (r'', v)))"
      by blast
    have "\<exists>fuel' r''. getWithPath c S' fuel' (ref c cur) path = Some (Inr (r'', v))"
      if cov: "\<forall>p \<in> set (NodeBytes c cur # qs). S' (makeStorageKey c (DoubleSha256 c p)) = Some p"
      for S'
    proof -
      from cov have here: "S' (makeStorageKey c (DoubleSha256 c (NodeBytes c cur))) = Some (NodeBytes c cur)"
        and rest: "\<forall>p \<in> set qs. S' (makeStorageKey c (DoubleSha256 c p)) = Some p"
        by simp_all
      from ver [OF rest] obtain fuel' r'' where
        v: "getWithPath c S' fuel' (ref c nxt) (drop (length key) path) = Some (Inr (r'', v))"
        by blast
      note rr = resolve_ref [of c cur S', OF nok here]
      have "getWithPath c S' (Suc (Suc fuel')) (ref c cur) path
              = getWithPath c S' (Suc fuel') (shallow c cur) path"
        by (rule rr) (simp add: ExtensionNode)
      also have "\<dots> = Some (Inr (ExtensionNode key r'', v))"
        using k v by (simp add: ExtensionNode)
      finally show ?thesis by blast
    qed
    with qs g k ExtensionNode show ?thesis by auto
  next
    case (HashNode ho)
    with run obtain h where h: "ho = Some h"
      by (cases ho) simp_all
    from run HashNode h obtain r0 where
      st: "getFromStore c S h = Inr r0"
      and sub: "getProof c S fuel r0 path acc = Some (ps, Inr r)"
      by (auto split: sum.splits)
    from getFromStore_ok [OF assms st] have rf: "ref c r0 = ref c cur"
      and tok': "trie_ok c r0"
      by (simp_all add: HashNode h)
    from Suc.IH [OF tok' sub] rf st HashNode h show ?thesis
      by auto
  qed
qed

lemma decbl_encbl: "decbl (encbl xs @ r) = Some (xs, r)"
proof (induction xs)
  case Nil
  show ?case by (cases r) simp_all
next
  case (Cons x xs)
  then show ?case by simp
qed

lemma decref_encref: "decref (encref h @ r) = Some (h, r)"
  by (cases h) (simp_all add: decbl_encbl)

lemma length_decbl: "decbl b = Some (xs, r) \<Longrightarrow> length r < length b"
proof (induction b arbitrary: xs r rule: decbl.induct)
  case 1
  then show ?case by simp
next
  case (2 t)
  then show ?case by (simp split: if_splits)
next
  case (3 t x r0)
  then show ?case by (fastforce split: if_splits)
qed

lemma length_decref: "decref b = Some (h, r) \<Longrightarrow> length r < length b"
  by (cases b) (auto split: if_splits dest: length_decbl)

lemma decrefs_encrefs: "decrefs (encrefs hs @ r) = Some (hs, r)"
proof (induction hs)
  case Nil
  show ?case by (subst decrefs.simps) simp
next
  case (Cons h hs)
  have "length (encrefs hs @ r) < length (encrefs (h # hs) @ r)"
    by simp
  with Cons show ?case
    by (subst decrefs.simps) (simp add: decref_encref)
qed

lemma enc_node_shallow:
  "enc_node H (shallow (toy_codec H) n) = enc_node H n"
proof (cases n)
  case (BranchNode children)
  have "(case ref (toy_codec H) m of HashNode h \<Rightarrow> h | _ \<Rightarrow> Some (H (enc_node H (ref (toy_codec H) m))))
        = (case m of HashNode h \<Rightarrow> h | _ \<Rightarrow> Some (H (enc_node H m)))" for m
    by (cases m) (simp_all add: toy_codec_def)
  with BranchNode show ?thesis by (simp add: comp_def)
next
  case (ExtensionNode key nxt)
  then show ?thesis by (cases nxt) (simp_all add: toy_codec_def)
qed simp_all

lemma HashNode_href:
  "HashNode (case m of HashNode h \<Rightarrow> h | _ \<Rightarrow> Some (H (enc_node H m))) = ref (toy_codec H) m"
  by (cases m) (simp_all add: toy_codec_def)

lemma dec_enc_node:
  assumes "\<not> is_HashNode n" and "\<And>children. n = BranchNode children \<Longrightarrow> length children = 17"
  shows "dec_node (enc_node H n) = Some (shallow (toy_codec H) n)"
proof (cases n)
  case (LeafNode v)
  with decbl_encbl [of v "[]"] show ?thesis by (simp add: dec_node_def)
next
  case (BranchNode children)
  let ?hs = "map (\<lambda>n. case n of HashNode h \<Rightarrow> h | _ \<Rightarrow> Some (H (enc_node H n))) children"
  have "map HashNode ?hs = map (ref (toy_codec H)) children"
    by (simp add: HashNode_href)
  with decrefs_encrefs [of ?hs "[]"] BranchNode assms(2) [OF BranchNode] show ?thesis
    by (simp add: dec_node_def)
next
  case (ExtensionNode key nxt)
  let ?h = "case nxt of HashNode h \<Rightarrow> h | _ \<Rightarrow> Some (H (enc_node H nxt))"
  from decbl_encbl [of key "encref ?h"] decref_encref [of ?h "[]"] HashNode_href [where m = nxt and H = H]
    ExtensionNode
  show ?thesis by (simp add: dec_node_def)
next
  case (HashNode h)
  with assms(1) show ?thesis by simp
qed

lemma node_ok_toy:
  assumes "\<not> is_HashNode n" and "\<And>children. n = BranchNode children \<Longrightarrow> length children = 17"
  shows "node_ok (toy_codec H) n"
proof -
  have "DecodeNode (toy_codec H) (NodeBytes (toy_codec H) n) = Some (shallow (toy_codec H) n)"
    using dec_enc_node [OF assms, of H] by (simp add: toy_codec_def)
  moreover have "NodeBytes (toy_codec H) (shallow (toy_codec H) n) = NodeBytes (toy_codec H) n"
    using enc_node_shallow [of H n] by (simp add: toy_codec_def)
  moreover have "case n of BranchNode children \<Rightarrow> length children = 17 | _ \<Rightarrow> True"
    using assms(2) by (cases n) simp_all
  ultimately show ?thesis
    unfolding node_ok_def by blast
qed

lemma proof_store_sound:
  "proof_store c ps k = Some data \<Longrightarrow>
     data \<in> set ps \<and> k = makeStorageKey c (DoubleSha256 c data)"
proof (induction ps rule: rev_induct)
  case Nil
  then show ?case by (simp add: proof_store_def)
next
  case (snoc q qs)
  then show ?case
    by (cases "k = makeStorageKey c (DoubleSha256 c q)") (auto simp: proof_store_snoc)
qed

lemma getWithPath_descent:
  "getWithPath c (proof_store c proofs) fuel cur path = Some (Inr (r, v)) \<Longrightarrow>
     proof_descent c proofs cur path v"
proof (induction fuel arbitrary: cur path r)
  case 0
  then show ?case by simp
next
  case (Suc fuel)
  show ?case
  proof (cases cur)
    case (LeafNode val)
    with Suc.prems show ?thesis
      by (auto split: if_splits intro: proof_descent.at_leaf)
  next
    case (BranchNode children)
    with Suc.prems Suc.IH show ?thesis
      by (auto split: if_splits option.splits sum.splits intro!: proof_descent.through_branch)
  next
    case (ExtensionNode key nxt)
    with Suc.prems have k: "take (length key) path = key"
      by (simp split: if_splits)
    then have p: "path = key @ drop (length key) path"
      by (metis append_take_drop_id)
    from Suc.prems ExtensionNode k Suc.IH
    have "proof_descent c proofs nxt (drop (length key) path) v"
      by (auto split: option.splits sum.splits)
    then have "proof_descent c proofs (ExtensionNode key nxt) (key @ drop (length key) path) v"
      by (rule proof_descent.through_extension)
    with p ExtensionNode show ?thesis by simp
  next
    case (HashNode ho)
    with Suc.prems obtain h where h: "ho = Some h"
      by (cases ho) simp_all
    from Suc.prems HashNode h obtain n where
      st: "getFromStore c (proof_store c proofs) h = Inr n"
      and sub: "getWithPath c (proof_store c proofs) fuel n path = Some (Inr (r, v))"
      by (auto split: sum.splits)
    from st obtain data where d: "proof_store c proofs (makeStorageKey c h) = Some data"
      "DecodeNode c data = Some n"
      by (auto simp: getFromStore_def split: option.splits)
    from proof_store_sound [OF d(1)] have "data \<in> set proofs" "DoubleSha256 c data = h"
      by (simp_all add: makeStorageKey_inj)
    with d(2) Suc.IH [OF sub] HashNode h show ?thesis
      by (auto intro: proof_descent.through_reference)
  qed
qed

lemma descent_getWithPath:
  assumes "inj_on (DoubleSha256 c) (set proofs)"
  shows "proof_descent c proofs cur path v \<Longrightarrow>
     \<exists>fuel r. getWithPath c (proof_store c proofs) fuel cur path = Some (Inr (r, v))"
proof (induction rule: proof_descent.induct)
  case (at_leaf v)
  have "getWithPath c (proof_store c proofs) (Suc 0) (LeafNode v) [] = Some (Inr (LeafNode v, v))"
    by simp
  then show ?case by blast
next
  case (through_branch path children v)
  then obtain fuel r where
    "getWithPath c (proof_store c proofs) fuel (children ! unat (fst (splitPath path)))
       (snd (splitPath path)) = Some (Inr (r, v))"
    by blast
  with through_branch.hyps
  have "getWithPath c (proof_store c proofs) (Suc fuel) (BranchNode children) path
          = Some (Inr (BranchNode (children[unat (fst (splitPath path)) := r]), v))"
    by simp
  then show ?case by blast
next
  case (through_extension nxt rest v key)
  then obtain fuel r where
    "getWithPath c (proof_store c proofs) fuel nxt rest = Some (Inr (r, v))"
    by blast
  then have "getWithPath c (proof_store c proofs) (Suc fuel) (ExtensionNode key nxt) (key @ rest)
          = Some (Inr (ExtensionNode key r, v))"
    by simp
  then show ?case by blast
next
  case (through_reference data h n path v)
  then obtain fuel r where
    g: "getWithPath c (proof_store c proofs) fuel n path = Some (Inr (r, v))"
    by blast
  from proof_store_covers [OF assms through_reference.hyps(1)] through_reference.hyps(2,3)
  have "getFromStore c (proof_store c proofs) h = Inr n"
    by (simp add: getFromStore_def)
  with g have "getWithPath c (proof_store c proofs) (Suc fuel) (HashNode (Some h)) path
          = Some (Inr (r, v))"
    by simp
  then show ?case by blast
qed

lemma VerifyProof_success:
  "VerifyProof c fuel rh key proofs = Some (v, True) \<longleftrightarrow>
     (\<exists>r. getWithPath c (proof_store c proofs) fuel (HashNode (Some rh)) (toNibbles key)
            = Some (Inr (r, v)))"
  by (auto simp: VerifyProof_def split: option.splits sum.splits)

lemma VerifyProof_iff_descent:
  assumes "inj_on (DoubleSha256 c) (set proofs)"
  shows "(\<exists>fuel. VerifyProof c fuel rh key proofs = Some (v, True)) \<longleftrightarrow>
     proof_descent c proofs (HashNode (Some rh)) (toNibbles key) v"
  unfolding VerifyProof_success
  using getWithPath_descent [of c proofs _ "HashNode (Some rh)" "toNibbles key" _ v]
    descent_getWithPath [OF assms, of "HashNode (Some rh)" "toNibbles key" v]
  by blast

lemma getWithPath_getProof:
  "getWithPath c S fuel cur path = Some (Inr (r, v)) \<Longrightarrow>
     \<exists>ps. getProof c S fuel cur path acc = Some (ps, Inr r)"
proof (induction fuel arbitrary: cur path r acc)
  case 0
  then show ?case by simp
next
  case (Suc fuel)
  show ?case
  proof (cases cur)
    case (LeafNode val)
    with Suc.prems show ?thesis by (auto split: if_splits)
  next
    case (BranchNode children)
    let ?i = "unat (fst (splitPath path))"
    from Suc.prems BranchNode have i: "?i < length children"
      by (simp split: if_splits)
    from Suc.prems BranchNode i obtain r0 where
      sub: "getWithPath c S fuel (children ! ?i) (snd (splitPath path)) = Some (Inr (r0, v))"
      and r: "r = BranchNode (children[?i := r0])"
      by (auto split: option.splits sum.splits)
    from Suc.IH [OF sub, of "acc @ [NodeBytes c (BranchNode children)]"] i r BranchNode
    show ?thesis by auto
  next
    case (ExtensionNode key nxt)
    from Suc.prems ExtensionNode have k: "take (length key) path = key"
      by (simp split: if_splits)
    from Suc.prems ExtensionNode k obtain r0 where
      sub: "getWithPath c S fuel nxt (drop (length key) path) = Some (Inr (r0, v))"
      and r: "r = ExtensionNode key r0"
      by (auto split: option.splits sum.splits)
    from Suc.IH [OF sub, of "acc @ [NodeBytes c (ExtensionNode key nxt)]"] k r ExtensionNode
    show ?thesis by auto
  next
    case (HashNode ho)
    with Suc.prems obtain h where h: "ho = Some h"
      by (cases ho) simp_all
    from Suc.prems HashNode h obtain n where
      st: "getFromStore c S h = Inr n"
      and sub: "getWithPath c S fuel n path = Some (Inr (r, v))"
      by (auto split: sum.splits)
    from Suc.IH [OF sub, of acc] st HashNode h show ?thesis by auto
  qed
qed

lemma ref_root:
  "cur \<noteq> HashNode None \<Longrightarrow> ref c cur = HashNode (Some (Node_Hash c cur))"
proof (cases cur)
  case (HashNode ho)
  assume "cur \<noteq> HashNode None"
  with HashNode show ?thesis by (cases ho) (simp_all add: Node_Hash_def)
qed (simp_all add: Node_Hash_def)

lemma round_trip:
  assumes "trie_ok c (root t)" and "store_ok c (Store t)" and "Get c fuel t key = Some (Inr v)"
  shows "\<exists>pf t'. GetProof c fuel t key = Some ((pf, None), t')
     \<and> (inj_on (DoubleSha256 c) (set pf) \<longrightarrow>
          (\<exists>fuel'. VerifyProof c fuel' (Node_Hash c (root t)) key pf = Some (v, True)))"
proof -
  from assms(3) obtain r where
    g: "getWithPath c (Store t) fuel (root t) (toNibbles key) = Some (Inr (r, v))"
    by (auto simp: Get_def split: option.splits sum.splits)
  from getWithPath_getProof [OF g, of "[]"] obtain ps where
    p: "getProof c (Store t) fuel (root t) (toNibbles key) [] = Some (ps, Inr r)"
    by blast
  then have gp: "GetProof c fuel t key = Some ((ps, None), t\<lparr>root := r\<rparr>)"
    by (simp add: GetProof_def)
  from g have ne: "root t \<noteq> HashNode None"
    by (cases fuel) auto
  have "\<exists>fuel'. VerifyProof c fuel' (Node_Hash c (root t)) key ps = Some (v, True)"
    if inj: "inj_on (DoubleSha256 c) (set ps)"
  proof -
    from getProof_verifies [OF assms(2,1) p] g obtain qs where
      qs: "ps = [] @ qs"
      and ver: "\<And>S'. (\<forall>p \<in> set qs. S' (makeStorageKey c (DoubleSha256 c p)) = Some p) \<Longrightarrow>
            (\<exists>fuel' r''. getWithPath c S' fuel' (ref c (root t)) (toNibbles key)
               = Some (Inr (r'', v)))"
      by auto
    have "\<forall>p \<in> set qs. proof_store c ps (makeStorageKey c (DoubleSha256 c p)) = Some p"
      using qs inj by (simp add: proof_store_covers)
    from ver [OF this] ref_root [OF ne, of c] show ?thesis
      by (simp add: VerifyProof_success)
  qed
  with gp show ?thesis by blast
qed

lemma DoubleSha256_c0: "DoubleSha256 c0 = H0"
  by (simp add: c0_def toy_codec_def)

lemma hashes0:
  "H0 (NodeBytes c0 root0) = [8]"
  "H0 (NodeBytes c0 branch0) = [39]"
  "H0 (NodeBytes c0 ext0) = [10]"
  "H0 (NodeBytes c0 leaf0) = [6]"
  by code_simp+

lemma inj_on_proof0: "inj_on (DoubleSha256 c0) (set proof0)"
  by (simp add: inj_on_def proof0_def nodes0_def DoubleSha256_c0 hashes0)

lemma store_ok_t0: "store_ok c0 (Store t0)"
  unfolding store_ok_def
proof (intro allI impI, elim conjE)
  fix h data r
  assume "Store t0 (makeStorageKey c0 h) = Some data" and dec: "DecodeNode c0 data = Some r"
  then have "map_of (map (\<lambda>n. (makeStorageKey c0 (H0 (NodeBytes c0 n)), NodeBytes c0 n)) nodes0)
      (makeStorageKey c0 h) = Some data"
    by (simp add: t0_def store0_def)
  then have "(makeStorageKey c0 h, data)
      \<in> set (map (\<lambda>n. (makeStorageKey c0 (H0 (NodeBytes c0 n)), NodeBytes c0 n)) nodes0)"
    by (rule map_of_SomeD)
  then obtain n where n: "n \<in> set nodes0" "h = H0 (NodeBytes c0 n)" "data = NodeBytes c0 n"
    by (auto simp: makeStorageKey_inj)
  from n(1) have nh: "\<not> is_HashNode n"
    by (auto simp: nodes0_def root0_def branch0_def ext0_def leaf0_def)
  from n(1) have "length children = 17" if "n = BranchNode children" for children
    using that by (auto simp: nodes0_def root0_def branch0_def ext0_def leaf0_def)
  with nh have ok: "node_ok c0 n"
    unfolding c0_def by (rule node_ok_toy)
  with dec n(3) have r: "r = shallow c0 n" and can: "NodeBytes c0 r = NodeBytes c0 n"
    by (simp_all add: node_ok_def)
  from r nh have "\<not> is_HashNode r"
    by (simp add: shallow_not_HashNode)
  moreover from r ok have "trie_ok c0 r"
    by (simp add: trie_ok_shallow)
  moreover from can n(2) have "DoubleSha256 c0 (NodeBytes c0 r) = h"
    by (simp add: DoubleSha256_c0)
  ultimately show "\<not> is_HashNode r \<and> trie_ok c0 r \<and> DoubleSha256 c0 (NodeBytes c0 r) = h"
    by blast
qed

lemma trie_ok_t0: "trie_ok c0 (root t0)"
proof -
  let ?B = "BranchNode (replicate 11 (HashNode None) @ [HashNode (Some (H0 (NodeBytes c0 ext0)))]
          @ replicate 5 (HashNode None))"
  have "node_ok c0 (ExtensionNode [10] ?B)"
    unfolding c0_def by (rule node_ok_toy) simp_all
  moreover have "node_ok c0 ?B"
    unfolding c0_def by (rule node_ok_toy) simp_all
  ultimately show ?thesis
    by (auto simp: t0_def root1_def)
qed

lemma Get_t0: "Get c0 10 t0 key0 = Some (Inr [104, 105])"
  by code_simp

lemma GetProof_t0: "map_option fst (GetProof c0 10 t0 key0) = Some (proof0, None)"
  by code_simp

text \<open>
  C4. Take a trie whose nodes in memory and in the store are nodes of the specification
  (branches of 17 slots, each node decoding from its serialisation with its children as
  references, and stored under the key of its hash). When a key is in the trie, \<^verbatim>\<open>GetProof\<close> of the key succeeds and, the hash
  function not colliding on the elements of the proof, \<^verbatim>\<open>VerifyProof\<close> of the root hash,
  the key and the proof succeeds with the value that \<^verbatim>\<open>Get\<close> finds under the key. On proof
  elements without a collision, \<^verbatim>\<open>VerifyProof\<close> succeeds with a value iff the descent from
  the root hash resolves every reference it meets to a supplied element and ends at a leaf
  with that value.
\<close>

theorem proof_round_trip:
  "(trie_ok c (root t) \<and> store_ok c (Store t) \<and> Get c fuel t key = Some (Inr v) \<longrightarrow>
      (\<exists>pf t'. GetProof c fuel t key = Some ((pf, None), t')
         \<and> (inj_on (DoubleSha256 c) (set pf) \<longrightarrow>
              (\<exists>fuel'. VerifyProof c fuel' (Node_Hash c (root t)) key pf = Some (v, True)))))
   \<and> (inj_on (DoubleSha256 c) (set proofs) \<longrightarrow>
        ((\<exists>fuel'. VerifyProof c fuel' rh key proofs = Some (w, True)) \<longleftrightarrow>
           proof_descent c proofs (HashNode (Some rh)) (toNibbles key) w))"
  using round_trip [of c t fuel key v] VerifyProof_iff_descent [of c proofs rh key w]
  by blast

theorem proof_round_trip_witness:
  "trie_ok c0 (root t0) \<and> store_ok c0 (Store t0)
   \<and> Get c0 10 t0 key0 = Some (Inr [104, 105])
   \<and> (\<exists>t'. GetProof c0 10 t0 key0 = Some ((proof0, None), t'))
   \<and> inj_on (DoubleSha256 c0) (set proof0)
   \<and> (\<exists>fuel'. VerifyProof c0 fuel' (Node_Hash c0 (root t0)) key0 proof0
                 = Some ([104, 105], True))
   \<and> proof_descent c0 proof0 (HashNode (Some (Node_Hash c0 (root t0)))) (toNibbles key0)
        [104, 105]"
proof -
  note a = trie_ok_t0
  note T = proof_round_trip [of c0 t0 10 key0 "[104, 105]" proof0 "Node_Hash c0 (root t0)"
      "[104, 105]"]
  from T a store_ok_t0 Get_t0 obtain pf t' where
    g: "GetProof c0 10 t0 key0 = Some ((pf, None), t')"
    and v: "inj_on (DoubleSha256 c0) (set pf) \<longrightarrow>
              (\<exists>fuel'. VerifyProof c0 fuel' (Node_Hash c0 (root t0)) key0 pf
                 = Some ([104, 105], True))"
    by blast
  from g GetProof_t0 have p: "pf = proof0" by simp
  with g have g0: "\<exists>t'. GetProof c0 10 t0 key0 = Some ((proof0, None), t')" by blast
  from v p inj_on_proof0
  have v0: "\<exists>fuel'. VerifyProof c0 fuel' (Node_Hash c0 (root t0)) key0 proof0
                 = Some ([104, 105], True)"
    by blast
  with T inj_on_proof0
  have "proof_descent c0 proof0 (HashNode (Some (Node_Hash c0 (root t0)))) (toNibbles key0)
        [104, 105]"
    by blast
  with a store_ok_t0 Get_t0 g0 inj_on_proof0 v0 show ?thesis by blast
qed

end
